theory Spec2Isabelle
  imports Main "HOL-Library.AList" "HOL-Library.Word"
begin

section \<open>Values, dictionaries and errors\<close>

text \<open>
  Python values as they reach the engine and the handlers (\<open>dict[str, Any]\<close> built from
  JSON, plus the message objects a model invocation returns). A float is its IEEE-754
  binary64 bit pattern; an object carries its \<open>str()\<close> form, its \<open>repr()\<close> form and its
  attributes. A character is a code point below 256.
\<close>

datatype pyval =
    PNone
  | PBool bool
  | PInt int
  | PFloat "64 word"
  | PStr string
  | PList "pyval list"
  | PDict "(string \<times> pyval) list"
  | PObj string string "(string \<times> pyval) list"

text \<open>
  A \<open>dict\<close> is an association list in insertion order whose keys are pairwise distinct.
  \<open>d[k] = v\<close> is \<open>AList.update k v d\<close>: it overwrites in place or appends at the end.
\<close>

type_synonym 'v dict = "(string \<times> 'v) list"

type_synonym payload = "pyval dict"

definition dict_update :: "'v dict \<Rightarrow> 'v dict \<Rightarrow> 'v dict" where
  \<comment> \<open>\<open>d.update(other)\<close>\<close>
  "dict_update d other = fold (\<lambda>(k, v). AList.update k v) other d"

text \<open>The exceptions of the source, each with its message.\<close>

datatype error =
    ValueError string
  | KeyError string
  | RuntimeError string
  | OverflowError string
  | TypeError string
  | ImportError string
  | ExternalError string

section \<open>models.py, nodes/base.py\<close>

record node =
  node_id :: string
  node_type :: string
  node_params :: payload

record workflow =
  wf_id :: string
  wf_name :: string
  wf_nodes :: "node list"
  wf_edges :: "string list dict"
  wf_active :: bool
  wf_created_at :: int

type_synonym node_handler = "payload \<Rightarrow> payload \<Rightarrow> error + payload"

text \<open>\<open>NodeRegistry._nodes\<close>, read only through \<open>get\<close>: type name to handler.\<close>

type_synonym node_registry = "string \<Rightarrow> node_handler option"

definition registry_get :: "node_registry \<Rightarrow> string \<Rightarrow> error + node_handler" where
  "registry_get registry type_name =
     (case registry type_name of
        None \<Rightarrow> Inl (KeyError (''Unknown node type: '' @ type_name))
      | Some handler \<Rightarrow> Inr handler)"

section \<open>engine.py\<close>

subsection \<open>\<open>_topological_sort\<close>\<close>

text \<open>\<open>indegree\<close> is a \<open>defaultdict(int)\<close>: reading a missing key gives 0 and inserts it.\<close>

definition dd_get :: "int dict \<Rightarrow> string \<Rightarrow> int" where
  "dd_get indegree k = (case map_of indegree k of None \<Rightarrow> 0 | Some d \<Rightarrow> d)"

definition dd_add :: "int dict \<Rightarrow> string \<Rightarrow> int \<Rightarrow> int dict" where
  \<comment> \<open>\<open>indegree[k] += x\<close>\<close>
  "dd_add indegree k x = AList.update k (dd_get indegree k + x) indegree"

definition build_node_map :: "node list \<Rightarrow> node dict" where
  \<comment> \<open>\<open>{n.id: n for n in nodes}\<close>\<close>
  "build_node_map nodes = fold (\<lambda>n. AList.update (node_id n) n) nodes []"

definition init_indegree :: "node list \<Rightarrow> int dict" where
  \<comment> \<open>\<open>for node in nodes: indegree[node.id] = 0\<close>\<close>
  "init_indegree nodes = fold (\<lambda>n. AList.update (node_id n) 0) nodes []"

fun count_targets :: "node dict \<Rightarrow> string list \<Rightarrow> int dict \<Rightarrow> error + int dict" where
  "count_targets node_map [] indegree = Inr indegree"
| "count_targets node_map (target # targets) indegree =
     (if map_of node_map target = None
      then Inl (ValueError (''Unknown target node in edges: '' @ target))
      else count_targets node_map targets (dd_add indegree target 1))"

fun count_edges :: "node dict \<Rightarrow> string list dict \<Rightarrow> int dict \<Rightarrow> error + int dict" where
  "count_edges node_map [] indegree = Inr indegree"
| "count_edges node_map ((source, targets) # edges) indegree =
     (if map_of node_map source = None
      then Inl (ValueError (''Unknown source node in edges: '' @ source))
      else (case count_targets node_map targets indegree of
              Inl e \<Rightarrow> Inl e
            | Inr indegree' \<Rightarrow> count_edges node_map edges indegree'))"

definition edges_get :: "string list dict \<Rightarrow> string \<Rightarrow> string list" where
  \<comment> \<open>\<open>edges.get(node_id, [])\<close>\<close>
  "edges_get edges k = (case map_of edges k of None \<Rightarrow> [] | Some targets \<Rightarrow> targets)"

fun relax :: "string \<Rightarrow> int dict \<times> string list \<Rightarrow> int dict \<times> string list" where
  \<comment> \<open>the body of \<open>for target in edges.get(node_id, [])\<close>\<close>
  "relax target (indegree, queue) =
     (let indegree' = dd_add indegree target (- 1)
      in (indegree', if dd_get indegree' target = 0 then queue @ [target] else queue))"

definition positive_degree :: "int dict \<Rightarrow> nat" where
  "positive_degree indegree = sum_list (map (\<lambda>(k, d). nat d) indegree)"

lemma positive_degree_update:
  "positive_degree (AList.update k (dd_get ind k - 1) ind) +
     (if dd_get ind k - 1 = 0 then 1 else 0) \<le> positive_degree ind"
proof (induction ind)
  case Nil
  then show ?case by (simp add: positive_degree_def dd_get_def)
next
  case (Cons p ind)
  obtain k' d where p: "p = (k', d)" by (cases p)
  show ?case
  proof (cases "k' = k")
    case True
    then show ?thesis using p by (auto simp: positive_degree_def dd_get_def)
  next
    case False
    then have "dd_get (p # ind) k = dd_get ind k" using p by (simp add: dd_get_def)
    then show ?thesis using Cons False p by (simp add: positive_degree_def)
  qed
qed

lemma relax_measure:
  "relax target (ind, q) = (ind', q') \<Longrightarrow>
     length q' + positive_degree ind' \<le> length q + positive_degree ind"
proof -
  assume r: "relax target (ind, q) = (ind', q')"
  have g: "dd_get (AList.update target (dd_get ind target - 1) ind) target = dd_get ind target - 1"
    by (simp add: dd_get_def update_conv')
  from r have i: "ind' = AList.update target (dd_get ind target - 1) ind"
    and q: "q' = (if dd_get ind target - 1 = 0 then q @ [target] else q)"
    using g by (auto simp: dd_add_def Let_def)
  show ?thesis using positive_degree_update [of target ind] i q by (auto split: if_splits)
qed

lemma fold_relax_measure:
  "fold relax targets (ind, q) = (ind', q') \<Longrightarrow>
     length q' + positive_degree ind' \<le> length q + positive_degree ind"
proof (induction targets arbitrary: ind q)
  case Nil
  then show ?case by simp
next
  case (Cons t targets)
  obtain ind1 q1 where s: "relax t (ind, q) = (ind1, q1)" by (cases "relax t (ind, q)")
  from Cons.prems s have "fold relax targets (ind1, q1) = (ind', q')" by simp
  from Cons.IH [OF this] relax_measure [OF s] show ?case by linarith
qed

function kahn_loop ::
  "node dict \<Rightarrow> string list dict \<Rightarrow> int dict \<Rightarrow> string list \<Rightarrow> node list \<Rightarrow> error + node list"
where
  "kahn_loop node_map edges indegree [] order = Inr order"
| "kahn_loop node_map edges indegree (nid # queue) order =
     (case map_of node_map nid of
        None \<Rightarrow> Inl (KeyError nid)
      | Some n \<Rightarrow>
          kahn_loop node_map edges
            (fst (fold relax (edges_get edges nid) (indegree, queue)))
            (snd (fold relax (edges_get edges nid) (indegree, queue)))
            (order @ [n]))"
  by pat_completeness auto
termination
proof (relation "measure (\<lambda>(node_map, edges, indegree, queue, order).
                    length queue + positive_degree indegree)")
  show "wf (measure (\<lambda>(node_map, edges, indegree, queue, order).
                    length queue + positive_degree indegree))"
    by simp
next
  fix node_map :: "node dict" and edges :: "string list dict" and indegree :: "int dict"
    and nid :: string and queue :: "string list" and order :: "node list" and n :: node
  obtain ind' q' where f: "fold relax (edges_get edges nid) (indegree, queue) = (ind', q')"
    by (cases "fold relax (edges_get edges nid) (indegree, queue)")
  from fold_relax_measure [OF f]
  show "((node_map, edges,
          fst (fold relax (edges_get edges nid) (indegree, queue)),
          snd (fold relax (edges_get edges nid) (indegree, queue)), order @ [n]),
         (node_map, edges, indegree, nid # queue, order))
        \<in> measure (\<lambda>(node_map, edges, indegree, queue, order).
                    length queue + positive_degree indegree)"
    using f by simp
qed

definition topological_sort :: "node list \<Rightarrow> string list dict \<Rightarrow> error + node list" where
  "topological_sort nodes edges =
     (let node_map = build_node_map nodes;
          indegree = init_indegree nodes
      in case count_edges node_map edges indegree of
           Inl e \<Rightarrow> Inl e
         | Inr indegree \<Rightarrow>
             (let queue = map fst (filter (\<lambda>(k, deg). deg = 0) indegree)
              in case kahn_loop node_map edges indegree queue [] of
                   Inl e \<Rightarrow> Inl e
                 | Inr order \<Rightarrow>
                     if length order \<noteq> length nodes
                     then Inl (ValueError ''Workflow graph has a cycle'')
                     else Inr order))"

subsection \<open>\<open>_merge_parent_payloads\<close>\<close>

definition incoming :: "node \<Rightarrow> string list dict \<Rightarrow> string list" where
  \<comment> \<open>the sources whose target list holds \<open>node.id\<close>, in the edge map's order\<close>
  "incoming n edges = map fst (filter (\<lambda>(source, targets). node_id n \<in> set targets) edges)"

definition results_get :: "payload dict \<Rightarrow> string \<Rightarrow> payload" where
  \<comment> \<open>\<open>results.get(source, {})\<close>\<close>
  "results_get results source = (case map_of results source of None \<Rightarrow> [] | Some p \<Rightarrow> p)"

definition merge_parent_payloads :: "node \<Rightarrow> string list dict \<Rightarrow> payload dict \<Rightarrow> payload" where
  "merge_parent_payloads n edges results =
     (if incoming n edges = [] then []
      else fold (\<lambda>source merged. dict_update merged (results_get results source))
             (incoming n edges) [])"

subsection \<open>\<open>run\<close>\<close>

text \<open>
  A run is observed through the handler invocations it makes, in order: the node and the
  payload its handler received. \<open>run_loop\<close> is the \<open>for node in ordered_nodes\<close> loop; its
  state is \<open>results\<close> and the invocations so far, and it stops at the first exception.
\<close>

type_synonym invocation = "node \<times> payload"

fun run_loop ::
  "node_registry \<Rightarrow> string list dict \<Rightarrow> payload \<Rightarrow> node list \<Rightarrow> payload dict \<Rightarrow>
   invocation list \<Rightarrow> invocation list \<times> payload dict \<times> error option"
where
  "run_loop registry edges input_data [] results calls = (calls, results, None)"
| "run_loop registry edges input_data (n # ordered_nodes) results calls =
     (let parent_payload = merge_parent_payloads n edges results;
          parent_payload = (if parent_payload = [] then input_data else parent_payload)
      in case registry_get registry (node_type n) of
           Inl e \<Rightarrow> (calls, results, Some e)
         | Inr handler \<Rightarrow>
             (case handler (node_params n) parent_payload of
                Inl e \<Rightarrow> (calls @ [(n, parent_payload)], results, Some e)
              | Inr out \<Rightarrow>
                  run_loop registry edges input_data ordered_nodes
                    (AList.update (node_id n) out results)
                    (calls @ [(n, parent_payload)])))"

definition run ::
  "node_registry \<Rightarrow> workflow \<Rightarrow> payload \<Rightarrow> invocation list \<times> (error + payload)"
where
  "run registry workflow input_data =
     (case topological_sort (wf_nodes workflow) (wf_edges workflow) of
        Inl e \<Rightarrow> ([], Inl e)
      | Inr ordered_nodes \<Rightarrow>
          (case run_loop registry (wf_edges workflow) input_data ordered_nodes [] [] of
             (calls, results, Some e) \<Rightarrow> (calls, Inl e)
           | (calls, results, None) \<Rightarrow>
               if ordered_nodes = [] then (calls, Inr input_data)
               else (case map_of results (node_id (last ordered_nodes)) of
                       None \<Rightarrow> (calls, Inl (KeyError (node_id (last ordered_nodes))))
                     | Some out \<Rightarrow> (calls, Inr out))))"

section \<open>nodes/builtin.py\<close>

definition manual_trigger_handler :: node_handler where
  "manual_trigger_handler params payload = Inr payload"

definition set_fields_handler :: node_handler where
  "set_fields_handler params payload =
     (case map_of params ''fields'' of
        None \<Rightarrow> Inr (dict_update payload [])
      | Some (PDict fields') \<Rightarrow> Inr (dict_update payload fields')
      | Some _ \<Rightarrow> Inl (ValueError ''set_fields.fields must be a dictionary''))"

section \<open>Python built-ins the agent handler uses\<close>

subsection \<open>\<open>str\<close>, \<open>repr\<close>, \<open>join\<close>, \<open>strip\<close>\<close>

definition digit_char :: "nat \<Rightarrow> char" where
  "digit_char d = char_of (of_char CHR ''0'' + d)"

function decimal :: "nat \<Rightarrow> string" where
  \<comment> \<open>the decimal digits of a natural number, as \<open>str\<close> prints them\<close>
  "decimal n =
     (if n div 10 = 0 then [digit_char n] else decimal (n div 10) @ [digit_char (n mod 10)])"
  by pat_completeness auto
termination
  by (relation "measure id") auto

declare decimal.simps [simp del]

text \<open>
  \<open>str(i)\<close> for an \<open>int\<close>. CPython refuses to print an integer of more than 4300 decimal
  digits, sign not counted (the default of \<open>sys.set_int_max_str_digits\<close>), and raises
  \<open>ValueError\<close>.
\<close>

definition digits_limit :: error where
  "digits_limit =
     ValueError (''Exceeds the limit (4300 digits) for integer string conversion; '' @
                 ''use sys.set_int_max_str_digits() to increase the limit'')"

definition int_str :: "int \<Rightarrow> error + string" where
  "int_str i =
     (let digits = decimal (nat \<bar>i\<bar>)
      in if 4300 < length digits then Inl digits_limit
         else Inr (if 0 \<le> i then digits else CHR ''-'' # digits))"

definition join :: "string \<Rightarrow> string list \<Rightarrow> string" where
  \<comment> \<open>\<open>sep.join(parts)\<close>\<close>
  "join sep parts = concat (case parts of [] \<Rightarrow> [] | p # ps \<Rightarrow> p # map (\<lambda>q. sep @ q) ps)"

definition is_space :: "char \<Rightarrow> bool" where
  \<comment> \<open>\<open>str.isspace\<close> on the code points below 256\<close>
  "is_space c \<longleftrightarrow>
     (let n = (of_char c :: nat)
      in (9 \<le> n \<and> n \<le> 13) \<or> (28 \<le> n \<and> n \<le> 32) \<or> n = 133 \<or> n = 160)"

definition strip :: "string \<Rightarrow> string" where
  "strip s = rev (dropWhile is_space (rev (dropWhile is_space s)))"

definition hex_digit :: "nat \<Rightarrow> char" where
  "hex_digit n = (if n < 10 then char_of (48 + n) else char_of (87 + n))"

definition repr_char :: "char \<Rightarrow> char \<Rightarrow> string" where
  "repr_char quote c =
     (let n = (of_char c :: nat)
      in if c = quote \<or> n = 92 then [CHR 0x5C, c]
         else if n = 9 then [CHR 0x5C, CHR ''t'']
         else if n = 10 then [CHR 0x5C, CHR ''n'']
         else if n = 13 then [CHR 0x5C, CHR ''r'']
         else if n < 32 \<or> n = 127 \<or> (128 \<le> n \<and> n \<le> 160) \<or> n = 173
         then [CHR 0x5C, CHR ''x'', hex_digit (n div 16), hex_digit (n mod 16)]
         else [c])"

definition repr_str :: "string \<Rightarrow> string" where
  "repr_str s =
     (let quote = (if CHR 0x27 \<in> set s \<and> CHR 0x22 \<notin> set s then CHR 0x22 else CHR 0x27)
      in [quote] @ concat (map (repr_char quote) s) @ [quote])"

text \<open>
  The elements of a container are printed from left to right; the first one that raises
  ends the conversion.
\<close>

fun all_or_error :: "(error + 'a) list \<Rightarrow> error + 'a list" where
  "all_or_error [] = Inr []"
| "all_or_error (x # xs) =
     (case x of
        Inl e \<Rightarrow> Inl e
      | Inr v \<Rightarrow> (case all_or_error xs of Inl e \<Rightarrow> Inl e | Inr vs \<Rightarrow> Inr (v # vs)))"

fun py_repr :: "(64 word \<Rightarrow> string) \<Rightarrow> pyval \<Rightarrow> error + string" where
  "py_repr fr PNone = Inr ''None''"
| "py_repr fr (PBool b) = Inr (if b then ''True'' else ''False'')"
| "py_repr fr (PInt i) = int_str i"
| "py_repr fr (PFloat w) = Inr (fr w)"
| "py_repr fr (PStr s) = Inr (repr_str s)"
| "py_repr fr (PList xs) =
     (case all_or_error (map (py_repr fr) xs) of
        Inl e \<Rightarrow> Inl e
      | Inr items \<Rightarrow> Inr (''['' @ join '', '' items @ '']''))"
| "py_repr fr (PDict kvs) =
     (case all_or_error
             (map (\<lambda>kv. case py_repr fr (snd kv) of
                          Inl e \<Rightarrow> Inl e
                        | Inr v \<Rightarrow> Inr (repr_str (fst kv) @ '': '' @ v)) kvs) of
        Inl e \<Rightarrow> Inl e
      | Inr items \<Rightarrow> Inr (''{'' @ join '', '' items @ ''}''))"
| "py_repr fr (PObj s r attrs) = Inr r"

definition py_str :: "(64 word \<Rightarrow> string) \<Rightarrow> pyval \<Rightarrow> error + string" where
  "py_str fr v =
     (case v of PStr s \<Rightarrow> Inr s | PObj s r attrs \<Rightarrow> Inr s | _ \<Rightarrow> py_repr fr v)"


subsection \<open>\<open>float(int)\<close>\<close>

text \<open>
  CPython converts an integer to the nearest binary64 value, ties to even, and raises
  \<open>OverflowError\<close> when the result is beyond the largest finite one.
\<close>

function bit_length :: "int \<Rightarrow> nat" where
  "bit_length n = (if n \<le> 0 then 0 else Suc (bit_length (n div 2)))"
  by pat_completeness auto
termination
  by (relation "measure nat") auto

definition round_half_even :: "int \<Rightarrow> nat \<Rightarrow> int" where
  \<comment> \<open>\<open>m / 2 ^ shift\<close> rounded to the nearest integer, ties to even\<close>
  "round_half_even m shift =
     (let q = m div 2 ^ shift; r = m mod 2 ^ shift; half = 2 ^ (shift - 1)
      in if half < r \<or> (r = half \<and> odd q) then q + 1 else q)"

definition float_bits :: "int \<Rightarrow> int" where
  \<comment> \<open>exponent field and fraction of the binary64 value nearest to \<open>m \<ge> 0\<close>, not yet bounded\<close>
  "float_bits m =
     (if m = 0 then 0
      else let e = bit_length m - 1;
               q = (if e \<le> 52 then m * 2 ^ (52 - e) else round_half_even m (e - 52))
           in (int e + 1022) * 2 ^ 52 + q)"

definition float_of_int :: "int \<Rightarrow> error + 64 word" where
  "float_of_int i =
     (let b = float_bits \<bar>i\<bar>
      in if 2047 * 2 ^ 52 \<le> b then Inl (OverflowError ''int too large to convert to float'')
         else Inr (word_of_int (b + (if i < 0 then 2 ^ 63 else 0))))"

definition is_str :: "pyval \<Rightarrow> bool" where
  "is_str v = (case v of PStr s \<Rightarrow> True | _ \<Rightarrow> False)"

definition is_int :: "pyval \<Rightarrow> bool" where
  \<comment> \<open>\<open>isinstance(v, int)\<close>: \<open>bool\<close> is a subclass of \<open>int\<close>\<close>
  "is_int v = (case v of PInt i \<Rightarrow> True | PBool b \<Rightarrow> True | _ \<Rightarrow> False)"

definition is_number :: "pyval \<Rightarrow> bool" where
  \<comment> \<open>\<open>isinstance(v, (int, float))\<close>\<close>
  "is_number v = (case v of PFloat w \<Rightarrow> True | _ \<Rightarrow> is_int v)"

definition int_of :: "pyval \<Rightarrow> int" where
  \<comment> \<open>the value of an \<open>int\<close> instance\<close>
  "int_of v = (case v of PInt i \<Rightarrow> i | PBool b \<Rightarrow> (if b then 1 else 0) | _ \<Rightarrow> 0)"

definition str_of :: "pyval \<Rightarrow> string" where
  "str_of v = (case v of PStr s \<Rightarrow> s | _ \<Rightarrow> [])"

definition py_float :: "pyval \<Rightarrow> error + 64 word" where
  \<comment> \<open>\<open>float(v)\<close>\<close>
  "py_float v =
     (case v of
        PFloat w \<Rightarrow> Inr w
      | PInt i \<Rightarrow> float_of_int i
      | PBool b \<Rightarrow> float_of_int (if b then 1 else 0)
      | _ \<Rightarrow> Inl (TypeError ''float() argument must be a string or a real number''))"

definition is_str_list :: "pyval \<Rightarrow> bool" where
  \<comment> \<open>\<open>isinstance(v, list) and all(isinstance(t, str) for t in v)\<close>\<close>
  "is_str_list v = (case v of PList xs \<Rightarrow> list_all is_str xs | _ \<Rightarrow> False)"

definition str_list_of :: "pyval \<Rightarrow> string list" where
  "str_list_of v = (case v of PList xs \<Rightarrow> map str_of xs | _ \<Rightarrow> [])"

section \<open>nodes/agent.py\<close>

subsection \<open>Collaborators of the agent handler\<close>

text \<open>
  \<open>app_config.agent_defaults()\<close> always returns the same eight keys, each with the type its
  getter gives it.
\<close>

record agent_defaults =
  d_model :: string
  d_system_prompt :: string
  d_input_field :: string
  d_num_ctx :: int
  d_num_predict :: int
  d_temperature :: "64 word"
  d_tools :: "string list"
  d_max_tool_calls :: int

text \<open>
  One model invocation: what \<open>_run_single_agent\<close> hands to \<open>ChatOllama\<close>,
  \<open>create_react_agent\<close> and \<open>agent.invoke\<close>; \<open>call_tools\<close> names the tools that
  \<open>build_agent_tools\<close> has resolved.
\<close>

record agent_call =
  call_model :: string
  call_prompt :: string
  call_user_prompt :: string
  call_tools :: "string list"
  call_num_ctx :: pyval
  call_num_predict :: pyval
  call_temperature :: "64 word"
  call_recursion_limit :: int

record env =
  env_defaults :: agent_defaults
  env_invoke :: "agent_call \<Rightarrow> error + payload"
  env_float_repr :: "64 word \<Rightarrow> string"

definition dict_get :: "payload \<Rightarrow> string \<Rightarrow> pyval \<Rightarrow> pyval" where
  \<comment> \<open>\<open>d.get(k, default)\<close>\<close>
  "dict_get d k dflt = (case map_of d k of None \<Rightarrow> dflt | Some v \<Rightarrow> v)"

subsection \<open>\<open>_extract_text_from_agent_result\<close>\<close>

definition getattr_content :: "pyval \<Rightarrow> pyval" where
  \<comment> \<open>\<open>getattr(last, "content", None)\<close>: only an object has attributes\<close>
  "getattr_content v =
     (case v of PObj s r attrs \<Rightarrow> dict_get attrs ''content'' PNone | _ \<Rightarrow> PNone)"

definition part_text :: "pyval \<Rightarrow> string option" where
  \<comment> \<open>\<open>isinstance(item, dict) and isinstance(item.get("text"), str)\<close>, then \<open>item["text"]\<close>\<close>
  "part_text item =
     (case item of
        PDict d \<Rightarrow> (case dict_get d ''text'' PNone of PStr t \<Rightarrow> Some t | _ \<Rightarrow> None)
      | _ \<Rightarrow> None)"

definition extract_text_from_agent_result ::
  "(64 word \<Rightarrow> string) \<Rightarrow> payload \<Rightarrow> error + string" where
  "extract_text_from_agent_result fr result =
     (case dict_get result ''messages'' PNone of
        PList messages \<Rightarrow>
          if messages = [] then py_str fr (PDict result)
          else (case getattr_content (last messages) of
                  PStr content \<Rightarrow> Inr content
                | PList content \<Rightarrow>
                    (let parts = List.map_filter part_text content
                     in if parts \<noteq> [] then Inr (join [CHR 0x0A] parts)
                        else py_str fr (last messages))
                | _ \<Rightarrow> py_str fr (last messages))
      | _ \<Rightarrow> py_str fr (PDict result))"

subsection \<open>\<open>_run_single_agent\<close>\<close>

text \<open>
  \<open>build_agent_tools\<close> (tooling.py) resolves the selected names against its registry of four
  tools and drops every other name; a tool is represented by its name.
\<close>

definition tool_registry :: "string list" where
  "tool_registry = [''calculator'', ''utc_time'', ''http_get'', ''tavily_search'']"

definition build_agent_tools :: "string list \<Rightarrow> string list" where
  "build_agent_tools selected = filter (\<lambda>tool_name. tool_name \<in> set tool_registry) selected"

definition tool_instruction :: string where
  "tool_instruction =
     ''When asked for factual, financial, company, or current-event information, '' @
     ''use available tools before answering. If a tool fails, say that clearly.''"

definition run_single_agent ::
  "env \<Rightarrow> string \<Rightarrow> string \<Rightarrow> string \<Rightarrow> string list \<Rightarrow> pyval \<Rightarrow> pyval \<Rightarrow> 64 word \<Rightarrow> pyval \<Rightarrow>
   agent_call \<times> (error + string)"
where
  "run_single_agent env model system_prompt user_prompt tools num_ctx num_predict temperature
     max_tool_calls =
     (let selected_tools = build_agent_tools tools;
          effective_prompt =
            (if ''tavily_search'' \<in> set tools
             then system_prompt @ [CHR 0x0A] @ tool_instruction else system_prompt);
          call = \<lparr>call_model = model, call_prompt = effective_prompt,
                  call_user_prompt = user_prompt, call_tools = selected_tools,
                  call_num_ctx = num_ctx, call_num_predict = num_predict,
                  call_temperature = temperature,
                  call_recursion_limit = max 8 (int_of max_tool_calls * 2 + 2)\<rparr>
      in (call,
          case env_invoke env call of
            Inl e \<Rightarrow> Inl e
          | Inr result \<Rightarrow> extract_text_from_agent_result (env_float_repr env) result))"

subsection \<open>\<open>_validate_common_settings\<close>\<close>

definition validate_common_settings ::
  "pyval \<Rightarrow> pyval \<Rightarrow> pyval \<Rightarrow> pyval \<Rightarrow> pyval \<Rightarrow> pyval \<Rightarrow>
   error + (string \<times> string \<times> pyval \<times> pyval \<times> 64 word \<times> pyval)"
where
  "validate_common_settings model input_field num_ctx num_predict temperature max_tool_calls =
     (if \<not> is_str model \<or> str_of model = []
      then Inl (ValueError ''agent.model must be a non-empty string'')
      else if \<not> is_str input_field \<or> str_of input_field = []
      then Inl (ValueError ''agent.input_field must be a non-empty string'')
      else if \<not> is_int num_ctx \<or> int_of num_ctx \<le> 0
      then Inl (ValueError ''agent.num_ctx must be a positive integer'')
      else if \<not> is_int num_predict \<or> int_of num_predict \<le> 0
      then Inl (ValueError ''agent.num_predict must be a positive integer'')
      else if \<not> is_number temperature
      then Inl (ValueError ''agent.temperature must be a number'')
      else if \<not> is_int max_tool_calls \<or> int_of max_tool_calls \<le> 0
      then Inl (ValueError ''agent.max_tool_calls must be a positive integer'')
      else (case py_float temperature of
              Inl e \<Rightarrow> Inl e
            | Inr t \<Rightarrow>
                Inr (str_of model, str_of input_field, num_ctx, num_predict, t, max_tool_calls)))"

subsection \<open>\<open>_normalize_agent_chain\<close>\<close>

text \<open>
  The default name of step \<open>idx\<close> is \<open>agent_\<close> followed by \<open>idx + 1\<close> in decimal; a list index
  is far below the limit of \<open>str\<close> on integers.
\<close>

record agent_cfg =
  cfg_name :: string
  cfg_system_prompt :: string
  cfg_model :: string
  cfg_tools :: "string list"

fun normalize_entries ::
  "string \<Rightarrow> string \<Rightarrow> string list \<Rightarrow> nat \<Rightarrow> pyval list \<Rightarrow> error + agent_cfg list" where
  "normalize_entries default_model default_prompt default_tools idx [] = Inr []"
| "normalize_entries default_model default_prompt default_tools idx (item # items) =
     (case item of
        PDict d \<Rightarrow>
          (let name = dict_get d ''name'' PNone;
               system_prompt = dict_get d ''system_prompt'' PNone;
               model = dict_get d ''model'' (PStr default_model);
               tools = dict_get d ''tools'' (PList (map PStr default_tools))
           in if \<not> is_str model \<or> str_of model = []
              then Inl (ValueError
                     ''Each langgraph_agent.agents[].model must be a non-empty string'')
              else let system_prompt =
                         (if system_prompt = PNone then PStr default_prompt else system_prompt)
                   in if \<not> is_str system_prompt
                      then Inl (ValueError
                             ''Each langgraph_agent.agents[].system_prompt must be a string'')
                      else if \<not> is_str_list tools
                      then Inl (ValueError
                             ''Each langgraph_agent.agents[].tools must be a list of strings'')
                      else (case normalize_entries default_model default_prompt default_tools
                                   (idx + 1) items of
                              Inl e \<Rightarrow> Inl e
                            | Inr normalized \<Rightarrow>
                                Inr (\<lparr>cfg_name =
                                        (if is_str name \<and> str_of name \<noteq> [] then str_of name
                                         else ''agent_'' @ decimal (idx + 1)),
                                      cfg_system_prompt = str_of system_prompt,
                                      cfg_model = str_of model,
                                      cfg_tools = str_list_of tools\<rparr> # normalized)))
      | _ \<Rightarrow> Inl (ValueError ''langgraph_agent.agents entries must be objects''))"

definition normalize_agent_chain ::
  "pyval \<Rightarrow> string \<Rightarrow> string \<Rightarrow> string list \<Rightarrow> error + agent_cfg list" where
  "normalize_agent_chain raw_agents default_model default_prompt default_tools =
     (case raw_agents of
        PNone \<Rightarrow> Inr []
      | PList items \<Rightarrow>
          if items = [] then Inl (ValueError ''langgraph_agent.agents must be a non-empty list'')
          else normalize_entries default_model default_prompt default_tools 0 items
      | _ \<Rightarrow> Inl (ValueError ''langgraph_agent.agents must be a non-empty list''))"

subsection \<open>\<open>langgraph_agent_handler\<close>\<close>

text \<open>The configuration the handler has resolved and validated before it reads the payload.\<close>

record agent_config =
  ac_model :: string
  ac_system_prompt :: string
  ac_input_field :: string
  ac_num_ctx :: pyval
  ac_num_predict :: pyval
  ac_temperature :: "64 word"
  ac_tools :: "string list"
  ac_max_tool_calls :: pyval
  ac_agent_chain :: "agent_cfg list"

definition resolve_config :: "env \<Rightarrow> payload \<Rightarrow> error + agent_config" where
  "resolve_config env params =
     (let defaults = env_defaults env;
          model = dict_get params ''model'' (PStr (d_model defaults));
          system_prompt = dict_get params ''system_prompt'' (PStr (d_system_prompt defaults));
          input_field = dict_get params ''input_field'' (PStr (d_input_field defaults));
          num_ctx = dict_get params ''num_ctx'' (PInt (d_num_ctx defaults));
          num_predict = dict_get params ''num_predict'' (PInt (d_num_predict defaults));
          temperature = dict_get params ''temperature'' (PFloat (d_temperature defaults));
          tools = dict_get params ''tools'' (PList (map PStr (d_tools defaults)));
          max_tool_calls = dict_get params ''max_tool_calls'' (PInt (d_max_tool_calls defaults));
          agents = dict_get params ''agents'' PNone
      in if \<not> is_str system_prompt
         then Inl (ValueError ''langgraph_agent.system_prompt must be a string'')
         else if \<not> is_str_list tools
         then Inl (ValueError ''langgraph_agent.tools must be a list of tool names'')
         else (case validate_common_settings model input_field num_ctx num_predict temperature
                      max_tool_calls of
                 Inl e \<Rightarrow> Inl e
               | Inr (model, input_field, num_ctx, num_predict, temperature, max_tool_calls) \<Rightarrow>
                   (case normalize_agent_chain agents model (str_of system_prompt)
                           (str_list_of tools) of
                      Inl e \<Rightarrow> Inl e
                    | Inr agent_chain \<Rightarrow>
                        Inr \<lparr>ac_model = model, ac_system_prompt = str_of system_prompt,
                             ac_input_field = input_field, ac_num_ctx = num_ctx,
                             ac_num_predict = num_predict, ac_temperature = temperature,
                             ac_tools = str_list_of tools, ac_max_tool_calls = max_tool_calls,
                             ac_agent_chain = agent_chain\<rparr>)))"

definition chain_prompt :: "string \<Rightarrow> string \<Rightarrow> string" where
  "chain_prompt original_input running_context =
     ''Original user request:'' @ [CHR 0x0A] @ original_input @ [CHR 0x0A, CHR 0x0A] @
     ''Current context from previous agents:'' @ [CHR 0x0A] @ running_context @
     [CHR 0x0A, CHR 0x0A] @ ''Continue and improve the answer.''"

definition trace_entry :: "agent_cfg \<Rightarrow> string \<Rightarrow> pyval" where
  "trace_entry agent_cfg output_text =
     PDict [(''name'', PStr (cfg_name agent_cfg)), (''model'', PStr (cfg_model agent_cfg)),
            (''tools'', PList (map PStr (cfg_tools agent_cfg))), (''output'', PStr output_text)]"

text \<open>
  The loop \<open>for idx, agent_cfg in enumerate(agent_chain)\<close>; its state is the running context,
  the trace and the model invocations so far.
\<close>

fun run_chain ::
  "env \<Rightarrow> agent_config \<Rightarrow> string \<Rightarrow> nat \<Rightarrow> agent_cfg list \<Rightarrow> string \<Rightarrow> pyval list \<Rightarrow>
   agent_call list \<Rightarrow> agent_call list \<times> (error + string \<times> pyval list)"
where
  "run_chain env cfg original_input idx [] running_context trace calls =
     (calls, Inr (running_context, trace))"
| "run_chain env cfg original_input idx (agent_cfg # agent_chain) running_context trace calls =
     (let step_input =
            (if idx = 0 then running_context else chain_prompt original_input running_context)
      in case run_single_agent env (cfg_model agent_cfg) (cfg_system_prompt agent_cfg)
                step_input (cfg_tools agent_cfg) (ac_num_ctx cfg) (ac_num_predict cfg)
                (ac_temperature cfg) (ac_max_tool_calls cfg) of
           (call, Inl e) \<Rightarrow> (calls @ [call], Inl e)
         | (call, Inr output_text) \<Rightarrow>
             run_chain env cfg original_input (idx + 1) agent_chain
               (if strip output_text \<noteq> [] then output_text else running_context)
               (trace @ [trace_entry agent_cfg output_text])
               (calls @ [call]))"

definition missing_dependencies :: error where
  "missing_dependencies =
     RuntimeError ''Missing agent dependencies. Install with: uv add langgraph langchain-ollama''"

definition missing_input_field :: "string \<Rightarrow> error" where
  "missing_input_field input_field =
     ValueError (''langgraph_agent expected input field '' @ [CHR 0x27] @ input_field @
                 [CHR 0x27] @ '' in payload'')"

text \<open>The body of the \<open>try\<close>: chained mode when there is a step list, one call otherwise.\<close>

definition execute_agents ::
  "env \<Rightarrow> agent_config \<Rightarrow> string \<Rightarrow> agent_call list \<times> (error + string \<times> pyval list)" where
  "execute_agents env cfg original_input =
     (let user_prompt = original_input
      in if ac_agent_chain cfg \<noteq> []
         then run_chain env cfg original_input 0 (ac_agent_chain cfg) original_input [] []
         else (case run_single_agent env (ac_model cfg) (ac_system_prompt cfg) user_prompt
                      (ac_tools cfg) (ac_num_ctx cfg) (ac_num_predict cfg) (ac_temperature cfg)
                      (ac_max_tool_calls cfg) of
                 (call, Inl e) \<Rightarrow> ([call], Inl e)
               | (call, Inr output_text) \<Rightarrow> ([call], Inr (output_text, []))))"

text \<open>\<open>merged = dict(payload)\<close> and the assignments after it.\<close>

definition merge_output :: "agent_config \<Rightarrow> payload \<Rightarrow> string \<Rightarrow> pyval list \<Rightarrow> payload" where
  "merge_output cfg payload output_text trace =
     (let merged = payload;
          merged = AList.update ''agent_output'' (PStr output_text) merged;
          merged = AList.update ''agent_model'' (PStr (ac_model cfg)) merged;
          merged = AList.update ''agent_num_ctx'' (ac_num_ctx cfg) merged;
          merged = AList.update ''agent_num_predict'' (ac_num_predict cfg) merged;
          merged = AList.update ''agent_tools'' (PList (map PStr (ac_tools cfg))) merged
      in if trace \<noteq> []
         then AList.update ''agent_count'' (PInt (int (length trace)))
                (AList.update ''agent_trace'' (PList trace) merged)
         else merged)"

definition langgraph_agent_handler ::
  "env \<Rightarrow> payload \<Rightarrow> payload \<Rightarrow> agent_call list \<times> (error + payload)" where
  "langgraph_agent_handler env params payload =
     (case resolve_config env params of
        Inl e \<Rightarrow> ([], Inl e)
      | Inr cfg \<Rightarrow>
          (case dict_get payload (ac_input_field cfg) PNone of
             PNone \<Rightarrow> ([], Inl (missing_input_field (ac_input_field cfg)))
           | prompt_value \<Rightarrow>
               (case py_str (env_float_repr env) prompt_value of
                  Inl e \<Rightarrow> ([], Inl e)
                | Inr original_input \<Rightarrow>
                    (case execute_agents env cfg original_input of
                       (calls, Inl (ImportError m)) \<Rightarrow> (calls, Inl missing_dependencies)
                     | (calls, Inl e) \<Rightarrow> (calls, Inl e)
                     | (calls, Inr (output_text, trace)) \<Rightarrow>
                         (calls, Inr (merge_output cfg payload output_text trace))))))"

section \<open>Notions the properties are stated with\<close>

definition dangling_source :: "node list \<Rightarrow> string list dict \<Rightarrow> string \<Rightarrow> bool" where
  "dangling_source nodes edges d \<longleftrightarrow> d \<in> fst ` set edges \<and> d \<notin> node_id ` set nodes"

definition dangling_target :: "node list \<Rightarrow> string list dict \<Rightarrow> string \<Rightarrow> bool" where
  "dangling_target nodes edges d \<longleftrightarrow>
     d \<in> \<Union> (set ` snd ` set edges) \<and> d \<notin> node_id ` set nodes"

definition edges_valid :: "node list \<Rightarrow> string list dict \<Rightarrow> bool" where
  \<comment> \<open>the edge map references only existing node ids\<close>
  "edges_valid nodes edges \<longleftrightarrow>
     (\<forall>d. \<not> dangling_source nodes edges d \<and> \<not> dangling_target nodes edges d)"

definition edge_rel :: "string list dict \<Rightarrow> (string \<times> string) set" where
  \<comment> \<open>the graph the edge map describes: \<open>(s, t)\<close> when \<open>t\<close> is among the targets of \<open>s\<close>\<close>
  "edge_rel edges = {(s, t). \<exists>ts. (s, ts) \<in> set edges \<and> t \<in> set ts}"

definition well_formed :: "workflow \<Rightarrow> bool" where
  \<comment> \<open>dictionary keys and node identities are unique\<close>
  "well_formed workflow \<longleftrightarrow>
     distinct (map fst (wf_edges workflow)) \<and> distinct (map node_id (wf_nodes workflow))"

text \<open>
  What Kahn's loop maintains. \<open>remaining edges done t\<close> counts the edges into \<open>t\<close> whose
  source is not in \<open>done\<close>; \<open>topo_ordered edges xs\<close> says that every source of an edge into
  an element of \<open>xs\<close> stands before it in \<open>xs\<close>.
\<close>

definition remaining :: "string list dict \<Rightarrow> string set \<Rightarrow> string \<Rightarrow> int" where
  "remaining edges done t =
     sum_list (map (\<lambda>(s, ts). if s \<in> done then 0 else int (count_list ts t)) edges)"

definition topo_ordered :: "string list dict \<Rightarrow> string list \<Rightarrow> bool" where
  "topo_ordered edges xs \<longleftrightarrow>
     (\<forall>i < length xs. \<forall>s. (s, xs ! i) \<in> edge_rel edges \<longrightarrow> s \<in> set (take i xs))"

definition kahn_inv ::
  "node list \<Rightarrow> string list dict \<Rightarrow> int dict \<Rightarrow> string list \<Rightarrow> node list \<Rightarrow> bool" where
  "kahn_inv nodes edges ind queue order \<longleftrightarrow>
     (\<forall>t. dd_get ind t = remaining edges (node_id ` set order) t) \<and>
     distinct (queue @ map node_id order) \<and>
     set queue \<union> node_id ` set order = {t \<in> node_id ` set nodes. dd_get ind t = 0} \<and>
     set order \<subseteq> set nodes \<and>
     topo_ordered edges (map node_id order)"

text \<open>
  The input a node's handler is given, as the loop computes it from \<open>results\<close>, and what
  the loop has established when it stops: \<open>cs\<close> are the invocations it made, \<open>R\<close> the final
  \<open>results\<close>, \<open>err\<close> the exception that stopped it, if any.
\<close>

definition resolve_input :: "string list dict \<Rightarrow> payload dict \<Rightarrow> payload \<Rightarrow> node \<Rightarrow> payload" where
  "resolve_input edges results input_data n =
     (if merge_parent_payloads n edges results = [] then input_data
      else merge_parent_payloads n edges results)"

definition loop_spec ::
  "node_registry \<Rightarrow> string list dict \<Rightarrow> payload \<Rightarrow> node list \<Rightarrow> payload dict \<Rightarrow>
   invocation list \<Rightarrow> payload dict \<Rightarrow> error option \<Rightarrow> bool" where
  "loop_spec registry edges input_data ns results cs R err \<longleftrightarrow>
     map fst cs = take (length cs) ns \<and>
     (err = None \<longrightarrow> length cs = length ns) \<and>
     (\<forall>x. x \<notin> node_id ` set ns \<longrightarrow> map_of R x = map_of results x) \<and>
     (\<forall>i < length cs. snd (cs ! i) = resolve_input edges R input_data (ns ! i)) \<and>
     (\<forall>i < length cs. i + 1 < length cs \<or> err = None \<longrightarrow>
        (\<exists>h out. registry (node_type (ns ! i)) = Some h \<and>
             h (node_params (ns ! i)) (snd (cs ! i)) = Inr out \<and>
             map_of R (node_id (ns ! i)) = Some out))"

text \<open>
  The merge of the upstream outputs in the words of the specification: the outputs are
  applied in order, and a field holds the value of the last output that sets it.
\<close>

definition upstream_merge :: "payload list \<Rightarrow> payload" where
  "upstream_merge outs = fold (\<lambda>out merged. dict_update merged out) outs []"

fun last_writer :: "payload list \<Rightarrow> string \<Rightarrow> pyval option" where
  "last_writer [] k = None"
| "last_writer (out # outs) k =
     (case last_writer outs k of Some v \<Rightarrow> Some v | None \<Rightarrow> map_of out k)"

text \<open>
  Chained mode in the words of the specification. \<open>contexts ctx outs\<close> lists the running
  context before each step and after the last one, given the steps' outputs: an output
  replaces the context unless it is empty after \<open>strip\<close>. \<open>chain_spec\<close> is the invariant
  of the loop over the steps: \<open>cs\<close> are the model invocations it made, \<open>outs\<close> the texts
  of the steps that returned one, \<open>r\<close> its outcome.
\<close>

fun contexts :: "string \<Rightarrow> string list \<Rightarrow> string list" where
  "contexts ctx [] = [ctx]"
| "contexts ctx (out # outs) = ctx # contexts (if strip out = [] then ctx else out) outs"

definition chain_spec ::
  "env \<Rightarrow> string \<Rightarrow> nat \<Rightarrow> agent_cfg list \<Rightarrow> string \<Rightarrow> pyval list \<Rightarrow> agent_call list \<Rightarrow>
   string list \<Rightarrow> (error + string \<times> pyval list) \<Rightarrow> bool" where
  "chain_spec env original_input idx agent_chain running_context trace cs outs r \<longleftrightarrow>
     length outs \<le> length cs \<and> length cs \<le> length agent_chain \<and>
     (\<forall>i < length cs. i \<le> length outs \<and> call_model (cs ! i) = cfg_model (agent_chain ! i) \<and>
        call_user_prompt (cs ! i) =
          (if idx + i = 0 then contexts running_context outs ! i
           else chain_prompt original_input (contexts running_context outs ! i))) \<and>
     (\<forall>i < length outs. \<exists>result. env_invoke env (cs ! i) = Inr result \<and>
        extract_text_from_agent_result (env_float_repr env) result = Inr (outs ! i)) \<and>
     (case r of
        Inr (final, trace') \<Rightarrow>
          length outs = length agent_chain \<and> final = last (contexts running_context outs) \<and>
          trace' = trace @ map2 trace_entry agent_chain outs
      | Inl e \<Rightarrow>
          length cs = length outs + 1 \<and>
          (case env_invoke env (last cs) of
             Inl e' \<Rightarrow> e' = e
           | Inr result \<Rightarrow>
               extract_text_from_agent_result (env_float_repr env) result = Inl e))"

text \<open>
  The text parts of a message content in the words of the specification: a part
  contributes its text when it is a mapping whose \<open>text\<close> field holds a string; every
  other part is skipped.
\<close>

fun text_fields :: "pyval list \<Rightarrow> string list" where
  "text_fields [] = []"
| "text_fields (PDict d # parts) =
     (case map_of d ''text'' of
        Some (PStr t) \<Rightarrow> t # text_fields parts
      | _ \<Rightarrow> text_fields parts)"
| "text_fields (part # parts) = text_fields parts"

text \<open>
  An invalid agent configuration in the words of the specification, on the values the
  handler resolves from the node parameters and the defaults; the messages of the
  validation; and the one other exception the validation can end with.
\<close>

definition step_invalid :: "string \<Rightarrow> pyval \<Rightarrow> bool" where
  "step_invalid default_model item =
     (case item of
        PDict d \<Rightarrow>
          \<not> is_str (dict_get d ''model'' (PStr default_model)) \<or>
          str_of (dict_get d ''model'' (PStr default_model)) = [] \<or>
          (dict_get d ''system_prompt'' PNone \<noteq> PNone \<and>
             \<not> is_str (dict_get d ''system_prompt'' PNone)) \<or>
          (map_of d ''tools'' \<noteq> None \<and> \<not> is_str_list (dict_get d ''tools'' PNone))
      | _ \<Rightarrow> True)"

definition invalid_config :: "env \<Rightarrow> payload \<Rightarrow> bool" where
  "invalid_config env params =
     (let defaults = env_defaults env;
          model = dict_get params ''model'' (PStr (d_model defaults));
          input_field = dict_get params ''input_field'' (PStr (d_input_field defaults));
          num_ctx = dict_get params ''num_ctx'' (PInt (d_num_ctx defaults));
          num_predict = dict_get params ''num_predict'' (PInt (d_num_predict defaults));
          temperature = dict_get params ''temperature'' (PFloat (d_temperature defaults));
          tools = dict_get params ''tools'' (PList (map PStr (d_tools defaults)));
          max_tool_calls = dict_get params ''max_tool_calls'' (PInt (d_max_tool_calls defaults));
          agents = dict_get params ''agents'' PNone
      in \<not> is_str model \<or> str_of model = [] \<or>
         \<not> is_str input_field \<or> str_of input_field = [] \<or>
         \<not> is_int num_ctx \<or> int_of num_ctx \<le> 0 \<or>
         \<not> is_int num_predict \<or> int_of num_predict \<le> 0 \<or>
         \<not> is_number temperature \<or>
         \<not> is_int max_tool_calls \<or> int_of max_tool_calls \<le> 0 \<or>
         \<not> is_str_list tools \<or>
         (case agents of
            PNone \<Rightarrow> False
          | PList items \<Rightarrow> items = [] \<or> list_ex (step_invalid (str_of model)) items
          | _ \<Rightarrow> True))"

definition config_messages :: "string list" where
  "config_messages =
     [''langgraph_agent.system_prompt must be a string'',
      ''langgraph_agent.tools must be a list of tool names'',
      ''agent.model must be a non-empty string'',
      ''agent.input_field must be a non-empty string'',
      ''agent.num_ctx must be a positive integer'',
      ''agent.num_predict must be a positive integer'',
      ''agent.temperature must be a number'',
      ''agent.max_tool_calls must be a positive integer'',
      ''langgraph_agent.agents must be a non-empty list'',
      ''langgraph_agent.agents entries must be objects'',
      ''Each langgraph_agent.agents[].model must be a non-empty string'',
      ''Each langgraph_agent.agents[].system_prompt must be a string'',
      ''Each langgraph_agent.agents[].tools must be a list of strings'']"

definition float_overflow :: error where
  "float_overflow = OverflowError ''int too large to convert to float''"

text \<open>Examples: a registry of two built-in handlers and small workflows.\<close>

definition example_registry :: node_registry where
  "example_registry =
     [''manual_trigger'' \<mapsto> manual_trigger_handler, ''set_fields'' \<mapsto> set_fields_handler]"

definition trigger_node :: "string \<Rightarrow> node" where
  "trigger_node i = \<lparr>node_id = i, node_type = ''manual_trigger'', node_params = []\<rparr>"

definition example_workflow :: "node list \<Rightarrow> string list dict \<Rightarrow> workflow" where
  "example_workflow nodes edges =
     \<lparr>wf_id = ''w1'', wf_name = ''example'', wf_nodes = nodes, wf_edges = edges,
      wf_active = False, wf_created_at = 0\<rparr>"

text \<open>
  Three nodes, two of them feeding the third (the example of the specification), and a
  two-node workflow whose first handler returns the empty mapping.
\<close>

definition fields_node :: "string \<Rightarrow> payload \<Rightarrow> node" where
  "fields_node i fs = \<lparr>node_id = i, node_type = ''set_fields'', node_params = [(''fields'', PDict fs)]\<rparr>"

definition merge_workflow :: workflow where
  "merge_workflow = example_workflow
     [fields_node ''A'' [(''x'', PInt 1), (''y'', PInt 2)],
      fields_node ''B'' [(''y'', PInt 3), (''z'', PInt 4)],
      trigger_node ''C'']
     [(''A'', [''C'']), (''B'', [''C''])]"

definition merge_calls :: "invocation list" where
  "merge_calls =
     [(fields_node ''A'' [(''x'', PInt 1), (''y'', PInt 2)], []),
      (fields_node ''B'' [(''y'', PInt 3), (''z'', PInt 4)], []),
      (trigger_node ''C'', [(''x'', PInt 1), (''y'', PInt 3), (''z'', PInt 4)])]"

definition empty_output_handler :: node_handler where
  "empty_output_handler params payload = Inr []"

definition drop_registry :: node_registry where
  "drop_registry =
     [''manual_trigger'' \<mapsto> manual_trigger_handler, ''drop'' \<mapsto> empty_output_handler]"

definition drop_workflow :: workflow where
  "drop_workflow = example_workflow
     [\<lparr>node_id = ''a'', node_type = ''drop'', node_params = []\<rparr>, trigger_node ''b'']
     [(''a'', [''b''])]"

definition drop_calls :: "invocation list" where
  "drop_calls =
     [(\<lparr>node_id = ''a'', node_type = ''drop'', node_params = []\<rparr>, [(''x'', PInt 1)]),
      (trigger_node ''b'', [(''x'', PInt 1)])]"

text \<open>An environment for the agent handler: defaults, and a scripted model.\<close>

definition example_defaults :: agent_defaults where
  "example_defaults =
     \<lparr>d_model = ''qwen2.5:1.5b'', d_system_prompt = ''You are a helpful workflow agent.'',
      d_input_field = ''message'', d_num_ctx = 1024, d_num_predict = 128,
      d_temperature = 0x3FC999999999999A, d_tools = [''calculator'', ''utc_time''],
      d_max_tool_calls = 6\<rparr>"

definition message :: "pyval \<Rightarrow> pyval" where
  "message content = PObj ''msg'' ''Message()'' [(''content'', content)]"

definition example_invoke :: "agent_call \<Rightarrow> error + payload" where
  "example_invoke call =
     (if call_model call = ''blank'' then Inr [(''messages'', PList [message (PStr ''  '')])]
      else Inr [(''messages'',
                 PList [message (PStr (call_model call @ '' says: '' @ call_user_prompt call))])])"

definition example_env :: env where
  "example_env = \<lparr>env_defaults = example_defaults, env_invoke = example_invoke,
                    env_float_repr = (\<lambda>w. ''0.0'')\<rparr>"

text \<open>
  A registry holding the agent handler, run against the scripted model, and a workflow
  whose trigger feeds an agent node.
\<close>

definition agent_registry :: node_registry where
  "agent_registry =
     [''manual_trigger'' \<mapsto> manual_trigger_handler,
      ''langgraph_agent'' \<mapsto>
        (\<lambda>params payload. snd (langgraph_agent_handler example_env params payload))]"

definition agent_node :: "string \<Rightarrow> node" where
  "agent_node i = \<lparr>node_id = i, node_type = ''langgraph_agent'', node_params = []\<rparr>"

definition agent_workflow :: workflow where
  "agent_workflow = example_workflow [trigger_node ''t'', agent_node ''a''] [(''t'', [''a''])]"

definition agent_calls :: "invocation list" where
  "agent_calls =
     [(trigger_node ''t'', [(''message'', PStr ''P'')]),
      (agent_node ''a'', [(''message'', PStr ''P'')])]"

definition agent_out :: payload where
  "agent_out =
     [(''message'', PStr ''P''), (''agent_output'', PStr ''qwen2.5:1.5b says: P''),
      (''agent_model'', PStr ''qwen2.5:1.5b''), (''agent_num_ctx'', PInt 1024),
      (''agent_num_predict'', PInt 128),
      (''agent_tools'', PList [PStr ''calculator'', PStr ''utc_time''])]"

text \<open>
  Results of a model invocation whose last message holds a text, a list of parts, or no
  text; the configuration the defaults resolve to; a three-step chain whose second step
  answers with blanks, with the payload it returns; and the output of a single-step call.
\<close>

definition text_result :: payload where
  "text_result = [(''messages'', PList [message (PStr ''first''), message (PStr ''hello'')])]"

definition parts_result :: payload where
  "parts_result =
     [(''messages'',
       PList [message (PList [PDict [(''type'', PStr ''text''), (''text'', PStr ''a'')],
                              PDict [(''type'', PStr ''image'')],
                              PDict [(''text'', PInt 5)],
                              PStr ''raw'',
                              PDict [(''text'', PStr ''b'')]])])]"

definition unreadable_result :: payload where
  "unreadable_result = [(''messages'', PList [message PNone])]"

definition textless_result :: payload where
  "textless_result = [(''messages'', PList [message (PList [PDict [(''type'', PStr ''image'')]])])]"

definition example_config :: agent_config where
  "example_config =
     \<lparr>ac_model = ''qwen2.5:1.5b'', ac_system_prompt = ''You are a helpful workflow agent.'',
      ac_input_field = ''message'', ac_num_ctx = PInt 1024, ac_num_predict = PInt 128,
      ac_temperature = 0x3FC999999999999A, ac_tools = [''calculator'', ''utc_time''],
      ac_max_tool_calls = PInt 6, ac_agent_chain = []\<rparr>"

definition chain_params :: payload where
  "chain_params =
     [(''agents'', PList [PDict [(''model'', PStr ''m1'')],
                          PDict [(''model'', PStr ''blank'')],
                          PDict [(''name'', PStr ''fin'')]])]"

definition chain_config :: agent_config where
  "chain_config = example_config
     \<lparr>ac_agent_chain :=
        [\<lparr>cfg_name = ''agent_1'', cfg_system_prompt = ''You are a helpful workflow agent.'',
          cfg_model = ''m1'', cfg_tools = [''calculator'', ''utc_time'']\<rparr>,
         \<lparr>cfg_name = ''agent_2'', cfg_system_prompt = ''You are a helpful workflow agent.'',
          cfg_model = ''blank'', cfg_tools = [''calculator'', ''utc_time'']\<rparr>,
         \<lparr>cfg_name = ''fin'', cfg_system_prompt = ''You are a helpful workflow agent.'',
          cfg_model = ''qwen2.5:1.5b'', cfg_tools = [''calculator'', ''utc_time'']\<rparr>]\<rparr>"

definition chain_payload :: payload where
  "chain_payload = [(''message'', PStr ''P'')]"

definition chain_calls :: "agent_call list" where
  "chain_calls = fst (langgraph_agent_handler example_env chain_params chain_payload)"

definition chain_out :: payload where
  "chain_out =
     [(''message'', PStr ''P''),
      (''agent_output'',
       PStr (''qwen2.5:1.5b says: Original user request:'' @ [CHR 0x0A] @ ''P'' @
             [CHR 0x0A, CHR 0x0A] @ ''Current context from previous agents:'' @ [CHR 0x0A] @
             ''m1 says: P'' @ [CHR 0x0A, CHR 0x0A] @ ''Continue and improve the answer.'')),
      (''agent_model'', PStr ''qwen2.5:1.5b''), (''agent_num_ctx'', PInt 1024),
      (''agent_num_predict'', PInt 128),
      (''agent_tools'', PList [PStr ''calculator'', PStr ''utc_time'']),
      (''agent_trace'',
       PList [PDict [(''name'', PStr ''agent_1''), (''model'', PStr ''m1''),
                     (''tools'', PList [PStr ''calculator'', PStr ''utc_time'']),
                     (''output'', PStr ''m1 says: P'')],
              PDict [(''name'', PStr ''agent_2''), (''model'', PStr ''blank''),
                     (''tools'', PList [PStr ''calculator'', PStr ''utc_time'']),
                     (''output'', PStr ''  '')],
              PDict [(''name'', PStr ''fin''), (''model'', PStr ''qwen2.5:1.5b''),
                     (''tools'', PList [PStr ''calculator'', PStr ''utc_time'']),
                     (''output'',
                      PStr (''qwen2.5:1.5b says: Original user request:'' @ [CHR 0x0A] @ ''P'' @
                            [CHR 0x0A, CHR 0x0A] @ ''Current context from previous agents:'' @
                            [CHR 0x0A] @ ''m1 says: P'' @ [CHR 0x0A, CHR 0x0A] @
                            ''Continue and improve the answer.''))]]),
      (''agent_count'', PInt 3)]"


section \<open>Validation of the edge map\<close>

lemma map_of_fold_update:
  "map_of (fold (\<lambda>n. AList.update (f n) (g n)) xs acc) k = None \<longleftrightarrow>
     k \<notin> f ` set xs \<and> map_of acc k = None"
  by (induction xs arbitrary: acc) (auto simp: update_conv')

lemma build_node_map_None:
  "map_of (build_node_map nodes) k = None \<longleftrightarrow> k \<notin> node_id ` set nodes"
  by (simp add: build_node_map_def map_of_fold_update)

lemma count_targets_Inl:
  "count_targets nm ts ind = Inl e \<Longrightarrow>
     \<exists>d \<in> set ts. map_of nm d = None \<and> e = ValueError (''Unknown target node in edges: '' @ d)"
  by (induction ts arbitrary: ind) (auto split: if_splits)

lemma count_targets_Inr:
  "\<forall>t \<in> set ts. map_of nm t \<noteq> None \<Longrightarrow>
     count_targets nm ts ind = Inr (fold (\<lambda>t ind. dd_add ind t 1) ts ind)"
  by (induction ts arbitrary: ind) auto

lemma count_targets_fails:
  "\<exists>t \<in> set ts. map_of nm t = None \<Longrightarrow> \<exists>e. count_targets nm ts ind = Inl e"
  by (induction ts arbitrary: ind) auto

lemma count_edges_Inl:
  "count_edges nm es ind = Inl e \<Longrightarrow>
     (\<exists>d \<in> fst ` set es. map_of nm d = None \<and>
        e = ValueError (''Unknown source node in edges: '' @ d)) \<or>
     (\<exists>d \<in> \<Union> (set ` snd ` set es). map_of nm d = None \<and>
        e = ValueError (''Unknown target node in edges: '' @ d))"
proof (induction es arbitrary: ind)
  case Nil
  then show ?case by simp
next
  case (Cons p es)
  obtain s ts where p: "p = (s, ts)" by (cases p)
  show ?case
  proof (cases "map_of nm s = None")
    case True
    then show ?thesis using Cons.prems p by auto
  next
    case False
    show ?thesis
    proof (cases "count_targets nm ts ind")
      case (Inl e')
      with Cons.prems p False have "e = e'" by simp
      with count_targets_Inl [OF Inl] p show ?thesis by auto
    next
      case (Inr ind')
      with Cons.prems p False have "count_edges nm es ind' = Inl e" by simp
      from Cons.IH [OF this] show ?thesis by auto
    qed
  qed
qed

lemma count_edges_fails:
  "(\<exists>d \<in> fst ` set es. map_of nm d = None) \<or>
   (\<exists>d \<in> \<Union> (set ` snd ` set es). map_of nm d = None)
     \<Longrightarrow> \<exists>e. count_edges nm es ind = Inl e"
proof (induction es arbitrary: ind)
  case Nil
  then show ?case by simp
next
  case (Cons p es)
  obtain s ts where p: "p = (s, ts)" by (cases p)
  show ?case
  proof (cases "map_of nm s = None")
    case True
    then show ?thesis using p by simp
  next
    case False
    note src = this
    show ?thesis
    proof (cases "\<exists>t \<in> set ts. map_of nm t = None")
      case True
      from count_targets_fails [OF this, of ind]
      obtain e where "count_targets nm ts ind = Inl e" ..
      then show ?thesis using p src by simp
    next
      case False
      then have ok: "\<forall>t \<in> set ts. map_of nm t \<noteq> None" by auto
      from False src Cons.prems p
      have "(\<exists>d \<in> fst ` set es. map_of nm d = None) \<or>
            (\<exists>d \<in> \<Union> (set ` snd ` set es). map_of nm d = None)"
        by auto
      from Cons.IH [OF this] show ?thesis using p src count_targets_Inr [OF ok] by auto
    qed
  qed
qed

lemma topological_sort_dangling:
  assumes "dangling_source nodes edges d \<or> dangling_target nodes edges d"
  shows "\<exists>d'. (dangling_source nodes edges d' \<and>
                topological_sort nodes edges =
                  Inl (ValueError (''Unknown source node in edges: '' @ d'))) \<or>
              (dangling_target nodes edges d' \<and>
                topological_sort nodes edges =
                  Inl (ValueError (''Unknown target node in edges: '' @ d')))"
proof -
  let ?nm = "build_node_map nodes"
  from assms
  have "(\<exists>d \<in> fst ` set edges. map_of ?nm d = None) \<or>
        (\<exists>d \<in> \<Union> (set ` snd ` set edges). map_of ?nm d = None)"
    unfolding dangling_source_def dangling_target_def build_node_map_None by blast
  from count_edges_fails [OF this, of "init_indegree nodes"]
  obtain e where e: "count_edges ?nm edges (init_indegree nodes) = Inl e" ..
  then have t: "topological_sort nodes edges = Inl e"
    by (simp add: topological_sort_def)
  from count_edges_Inl [OF e] show ?thesis
    unfolding t dangling_source_def dangling_target_def build_node_map_None by blast
qed

text \<open>
  C4. When the edge map names a source or a target that is not the id of any node of the
  workflow, \<open>run\<close> fails with the unknown-node \<open>ValueError\<close> whose message names a dangling
  id (the first one the validation meets), and no handler has been invoked.
\<close>

theorem run_unknown_node_reference:
  assumes "dangling_source (wf_nodes workflow) (wf_edges workflow) d \<or>
           dangling_target (wf_nodes workflow) (wf_edges workflow) d"
  shows "\<exists>d'. (dangling_source (wf_nodes workflow) (wf_edges workflow) d' \<and>
                run registry workflow input_data =
                  ([], Inl (ValueError (''Unknown source node in edges: '' @ d')))) \<or>
              (dangling_target (wf_nodes workflow) (wf_edges workflow) d' \<and>
                run registry workflow input_data =
                  ([], Inl (ValueError (''Unknown target node in edges: '' @ d'))))"
proof -
  from topological_sort_dangling [OF assms] obtain d' where
    "(dangling_source (wf_nodes workflow) (wf_edges workflow) d' \<and>
        topological_sort (wf_nodes workflow) (wf_edges workflow) =
          Inl (ValueError (''Unknown source node in edges: '' @ d'))) \<or>
     (dangling_target (wf_nodes workflow) (wf_edges workflow) d' \<and>
        topological_sort (wf_nodes workflow) (wf_edges workflow) =
          Inl (ValueError (''Unknown target node in edges: '' @ d')))" ..
  then show ?thesis by (auto simp: run_def)
qed

theorem run_unknown_node_reference_witness:
  "dangling_target [trigger_node ''a'', trigger_node ''b''] [(''a'', [''b'', ''x''])] ''x'' \<and>
   run example_registry
     (example_workflow [trigger_node ''a'', trigger_node ''b''] [(''a'', [''b'', ''x''])])
     [(''message'', PStr ''hi'')] =
     ([], Inl (ValueError ''Unknown target node in edges: x''))"
proof -
  let ?w = "example_workflow [trigger_node ''a'', trigger_node ''b''] [(''a'', [''b'', ''x''])]"
  have h: "dangling_target (wf_nodes ?w) (wf_edges ?w) ''x''"
    by (simp add: dangling_target_def example_workflow_def trigger_node_def)
  have ns: "\<not> dangling_source (wf_nodes ?w) (wf_edges ?w) d'" for d'
    by (auto simp: dangling_source_def example_workflow_def trigger_node_def)
  have nt: "dangling_target (wf_nodes ?w) (wf_edges ?w) d' \<Longrightarrow> d' = ''x''" for d'
    by (auto simp: dangling_target_def example_workflow_def trigger_node_def)
  from run_unknown_node_reference [of ?w "''x''" example_registry "[(''message'', PStr ''hi'')]"] h
  obtain d' where
    "dangling_target (wf_nodes ?w) (wf_edges ?w) d' \<and>
     run example_registry ?w [(''message'', PStr ''hi'')] =
       ([], Inl (ValueError (''Unknown target node in edges: '' @ d')))"
    using ns by blast
  with nt [of d'] h show ?thesis by (simp add: example_workflow_def)
qed

section \<open>Kahn's algorithm\<close>

lemma dd_get_dd_add:
  "dd_get (dd_add ind k x) k' = (if k' = k then dd_get ind k + x else dd_get ind k')"
  by (simp add: dd_get_def dd_add_def update_conv')

lemma keys_dd_add: "fst ` set (dd_add ind k x) = insert k (fst ` set ind)"
  by (simp add: dd_add_def dom_update)

lemma map_fst_dd_add: "k \<in> fst ` set ind \<Longrightarrow> map fst (dd_add ind k x) = map fst ind"
  by (simp add: dd_add_def update_keys)

lemma fold_count_get:
  "dd_get (fold (\<lambda>t ind. dd_add ind t 1) ts ind) t = dd_get ind t + int (count_list ts t)"
  by (induction ts arbitrary: ind) (auto simp: dd_get_dd_add)

lemma fold_count_keys:
  "set ts \<subseteq> fst ` set ind \<Longrightarrow> map fst (fold (\<lambda>t ind. dd_add ind t 1) ts ind) = map fst ind"
proof (induction ts arbitrary: ind)
  case Nil
  then show ?case by simp
next
  case (Cons t ts)
  then have m: "map fst (dd_add ind t 1) = map fst ind" by (simp add: map_fst_dd_add)
  then have "fst ` set (dd_add ind t 1) = fst ` set ind" by (metis list.set_map)
  with Cons have "map fst (fold (\<lambda>t ind. dd_add ind t 1) ts (dd_add ind t 1)) = map fst (dd_add ind t 1)"
    by simp
  with m show ?case by simp
qed

lemma count_edges_Inr:
  assumes "\<forall>(s, ts) \<in> set es. map_of nm s \<noteq> None \<and> (\<forall>t \<in> set ts. map_of nm t \<noteq> None \<and> t \<in> fst ` set ind)"
  shows "\<exists>ind'. count_edges nm es ind = Inr ind' \<and> map fst ind' = map fst ind \<and>
           (\<forall>t. dd_get ind' t = dd_get ind t + sum_list (map (\<lambda>(s, ts). int (count_list ts t)) es))"
  using assms
proof (induction es arbitrary: ind)
  case Nil
  then show ?case by simp
next
  case (Cons p es)
  obtain s ts where p: "p = (s, ts)" by (cases p)
  let ?ind1 = "fold (\<lambda>t ind. dd_add ind t 1) ts ind"
  from Cons.prems p have src: "map_of nm s \<noteq> None" and tg: "\<forall>t \<in> set ts. map_of nm t \<noteq> None"
    and tk: "set ts \<subseteq> fst ` set ind" by auto
  have k1: "map fst ?ind1 = map fst ind" using tk by (rule fold_count_keys)
  then have k1': "fst ` set ?ind1 = fst ` set ind" by (metis list.set_map)
  have "\<forall>(s, ts) \<in> set es. map_of nm s \<noteq> None \<and> (\<forall>t \<in> set ts. map_of nm t \<noteq> None \<and> t \<in> fst ` set ?ind1)"
    using Cons.prems unfolding k1' by auto
  from Cons.IH [OF this] obtain ind' where
    r: "count_edges nm es ?ind1 = Inr ind'" and k: "map fst ind' = map fst ?ind1"
    and g: "\<forall>t. dd_get ind' t = dd_get ?ind1 t + sum_list (map (\<lambda>(s, ts). int (count_list ts t)) es)"
    by blast
  have "count_edges nm (p # es) ind = Inr ind'"
    using p src count_targets_Inr [OF tg, of ind] r by auto
  moreover have "map fst ind' = map fst ind" using k k1 by simp
  moreover have "\<forall>t. dd_get ind' t = dd_get ind t + sum_list (map (\<lambda>(s, ts). int (count_list ts t)) (p # es))"
    using g p by (simp add: fold_count_get)
  ultimately show ?case by blast
qed

lemma init_indegree_map_of_gen:
  "map_of (fold (\<lambda>n. AList.update (node_id n) (0::int)) ns acc) k =
     (if k \<in> node_id ` set ns then Some 0 else map_of acc k)"
  by (induction ns arbitrary: acc) (auto simp: update_conv')

lemma init_indegree_distinct_gen:
  "distinct (map fst acc) \<Longrightarrow> distinct (map fst (fold (\<lambda>n. AList.update (node_id n) (0::int)) ns acc))"
  by (induction ns arbitrary: acc) (auto simp: distinct_update)

lemma init_indegree_keys_gen:
  "fst ` set (fold (\<lambda>n. AList.update (node_id n) (0::int)) ns acc) = node_id ` set ns \<union> fst ` set acc"
  by (induction ns arbitrary: acc) (auto simp: dom_update)

lemma init_indegree_props:
  "distinct (map fst (init_indegree nodes))"
  "fst ` set (init_indegree nodes) = node_id ` set nodes"
  "dd_get (init_indegree nodes) k = 0"
  by (simp_all add: init_indegree_def init_indegree_distinct_gen init_indegree_keys_gen
        init_indegree_map_of_gen dd_get_def)

lemma build_node_map_Some_gen:
  "map_of (fold (\<lambda>n. AList.update (node_id n) n) ns acc) k = Some n \<Longrightarrow>
     (n \<in> set ns \<and> node_id n = k) \<or> map_of acc k = Some n"
proof (induction ns arbitrary: acc)
  case Nil
  then show ?case by simp
next
  case (Cons a ns)
  from Cons.prems have "map_of (fold (\<lambda>n. AList.update (node_id n) n) ns (AList.update (node_id a) a acc)) k = Some n"
    by simp
  from Cons.IH [OF this] show ?case
    by (auto simp: update_conv' split: if_splits)
qed

lemma build_node_map_Some:
  "map_of (build_node_map nodes) k = Some n \<Longrightarrow> n \<in> set nodes \<and> node_id n = k"
  using build_node_map_Some_gen [of nodes "[]" k n] by (simp add: build_node_map_def)


lemma relax_eq:
  "relax t (ind, q) =
     (dd_add ind t (- 1), if dd_get ind t = 1 then q @ [t] else q)"
  by (auto simp: Let_def dd_get_dd_add)

lemma fold_relax:
  "fold relax ts (ind, q) = (ind', q') \<Longrightarrow>
     (\<forall>t. dd_get ind' t = dd_get ind t - int (count_list ts t)) \<and>
     (\<exists>added. q' = q @ added \<and> distinct added \<and>
        set added = {t \<in> set ts. 0 < dd_get ind t \<and> dd_get ind t \<le> int (count_list ts t)})"
proof (induction ts arbitrary: ind q)
  case Nil
  then show ?case by simp
next
  case (Cons t ts)
  let ?ind1 = "dd_add ind t (- 1)"
  let ?q1 = "if dd_get ind t = 1 then q @ [t] else q"
  from Cons.prems have "fold relax ts (?ind1, ?q1) = (ind', q')"
    by (simp only: fold_simps relax_eq)
  from Cons.IH [OF this] obtain added where
    g: "\<forall>u. dd_get ind' u = dd_get ?ind1 u - int (count_list ts u)"
    and q: "q' = ?q1 @ added" and d: "distinct added"
    and a: "set added = {u \<in> set ts. 0 < dd_get ?ind1 u \<and> dd_get ?ind1 u \<le> int (count_list ts u)}"
    by blast
  have g': "\<forall>u. dd_get ind' u = dd_get ind u - int (count_list (t # ts) u)"
    using g by (simp add: dd_get_dd_add)
  let ?added = "(if dd_get ind t = 1 then [t] else []) @ added"
  have q': "q' = q @ ?added" using q by simp
  have tn: "dd_get ind t = 1 \<Longrightarrow> t \<notin> set added" using a by (simp add: dd_get_dd_add)
  have d': "distinct ?added" using d tn by simp
  have mem: "u \<in> set added \<longleftrightarrow>
      u \<in> set ts \<and> 0 < dd_get ?ind1 u \<and> dd_get ?ind1 u \<le> int (count_list ts u)" for u
    unfolding a by simp
  have a': "set ?added = {u \<in> set (t # ts). 0 < dd_get ind u \<and> dd_get ind u \<le> int (count_list (t # ts) u)}"
  proof (rule set_eqI)
    fix u
    show "u \<in> set ?added \<longleftrightarrow> u \<in> {u \<in> set (t # ts). 0 < dd_get ind u \<and> dd_get ind u \<le> int (count_list (t # ts) u)}"
    proof (cases "u = t")
      case False
      then have "dd_get ?ind1 u = dd_get ind u" by (simp add: dd_get_dd_add)
      then show ?thesis using False mem [of u] by simp
    next
      case True
      have g1: "dd_get ?ind1 t = dd_get ind t - 1" by (simp add: dd_get_dd_add)
      show ?thesis
      proof (cases "dd_get ind t = 1")
        case True
        with \<open>u = t\<close> show ?thesis by simp
      next
        case False
        have c: "t \<notin> set ts \<Longrightarrow> count_list ts t = 0" by (simp add: count_list_0_iff)
        have "t \<in> set added \<longleftrightarrow> 0 < dd_get ind t \<and> dd_get ind t \<le> int (count_list ts t) + 1"
          using mem [of t] g1 False c by (cases "t \<in> set ts") auto
        then show ?thesis using False \<open>u = t\<close> by auto
      qed
    qed
  qed
  from g' q' d' a' show ?case by blast
qed

lemma remaining_insert_nokey:
  "k \<notin> fst ` set es \<Longrightarrow> remaining es (insert k done) t = remaining es done t"
  by (induction es) (auto simp: remaining_def)

lemma remaining_insert:
  "distinct (map fst es) \<Longrightarrow> k \<notin> done \<Longrightarrow>
     remaining es (insert k done) t = remaining es done t - int (count_list (edges_get es k) t)"
proof (induction es)
  case Nil
  then show ?case by (simp add: remaining_def edges_get_def)
next
  case (Cons p es)
  obtain s ts where p: "p = (s, ts)" by (cases p)
  show ?case
  proof (cases "s = k")
    case True
    with Cons.prems p have "k \<notin> fst ` set es" by auto
    from remaining_insert_nokey [OF this] show ?thesis
      using True p Cons.prems by (simp add: remaining_def edges_get_def)
  next
    case False
    with Cons p show ?thesis by (simp add: remaining_def edges_get_def)
  qed
qed

lemma remaining_nonneg: "0 \<le> remaining es done t"
  by (induction es) (auto simp: remaining_def)

lemma remaining_zero_iff:
  "remaining es done t = 0 \<longleftrightarrow> (\<forall>s. (s, t) \<in> edge_rel es \<longrightarrow> s \<in> done)"
proof (induction es)
  case Nil
  then show ?case by (simp add: remaining_def edge_rel_def)
next
  case (Cons p es)
  obtain s ts where p: "p = (s, ts)" by (cases p)
  have e: "edge_rel (p # es) = {(s, u) | u. u \<in> set ts} \<union> edge_rel es"
    using p by (auto simp: edge_rel_def)
  have r: "remaining (p # es) done t = (if s \<in> done then 0 else int (count_list ts t)) + remaining es done t"
    using p by (simp add: remaining_def)
  have c: "count_list ts t = 0 \<longleftrightarrow> t \<notin> set ts" by (simp add: count_list_0_iff)
  show ?case unfolding r e using Cons remaining_nonneg [of es "done" t] c
    by (auto simp: add_nonneg_eq_0_iff)
qed

lemma topo_ordered_snoc:
  "topo_ordered edges xs \<Longrightarrow> (\<forall>s. (s, x) \<in> edge_rel edges \<longrightarrow> s \<in> set xs) \<Longrightarrow>
     topo_ordered edges (xs @ [x])"
  unfolding topo_ordered_def
  by (auto simp: nth_append less_Suc_eq)

lemma kahn_invD:
  assumes "kahn_inv nodes edges ind queue order"
  shows "\<forall>t. dd_get ind t = remaining edges (node_id ` set order) t"
    and "distinct (queue @ map node_id order)"
    and "set queue \<union> node_id ` set order = {t \<in> node_id ` set nodes. dd_get ind t = 0}"
    and "set order \<subseteq> set nodes"
    and "topo_ordered edges (map node_id order)"
proof -
  note c = assms [unfolded kahn_inv_def]
  show "\<forall>t. dd_get ind t = remaining edges (node_id ` set order) t"
    using c by (elim conjE)
  show "distinct (queue @ map node_id order)"
    using c by (elim conjE)
  show "set queue \<union> node_id ` set order = {t \<in> node_id ` set nodes. dd_get ind t = 0}"
    using c by (elim conjE)
  show "set order \<subseteq> set nodes"
    using c by (elim conjE)
  show "topo_ordered edges (map node_id order)"
    using c by (elim conjE)
qed

lemma edges_get_valid:
  assumes "edges_valid nodes edges" and "t \<in> set (edges_get edges k)"
  shows "t \<in> node_id ` set nodes"
proof -
  from assms(2) obtain ts where m: "map_of edges k = Some ts" and t: "t \<in> set ts"
    by (cases "map_of edges k") (auto simp: edges_get_def)
  from map_of_SomeD [OF m] t have "t \<in> \<Union> (set ` snd ` set edges)" by force
  with assms(1) show ?thesis unfolding edges_valid_def dangling_target_def by blast
qed

lemma kahn_inv_step:
  assumes inv: "kahn_inv nodes edges ind (nid # queue) order"
    and dk: "distinct (map fst edges)"
    and valid: "edges_valid nodes edges"
    and nm: "map_of (build_node_map nodes) nid = Some n"
    and f: "fold relax (edges_get edges nid) (ind, queue) = (ind', q')"
  shows "kahn_inv nodes edges ind' q' (order @ [n])"
proof -
  let ?done = "node_id ` set order"
  let ?ts = "edges_get edges nid"
  let ?ids = "node_id ` set nodes"
  from build_node_map_Some [OF nm] have n: "n \<in> set nodes" and nid: "node_id n = nid" by auto
  from inv have i1: "\<forall>t. dd_get ind t = remaining edges ?done t"
    and i2: "distinct ((nid # queue) @ map node_id order)"
    and i3: "set (nid # queue) \<union> ?done = {t \<in> ?ids. dd_get ind t = 0}"
    and i4: "set order \<subseteq> set nodes"
    and i5: "topo_ordered edges (map node_id order)"
    unfolding kahn_inv_def by auto
  from i2 have nd: "nid \<notin> ?done" and nq: "nid \<notin> set queue" by auto
  from i3 have z: "dd_get ind nid = 0" by auto
  from fold_relax [OF f] obtain added where
    g: "\<forall>t. dd_get ind' t = dd_get ind t - int (count_list ?ts t)"
    and q: "q' = queue @ added" and d: "distinct added"
    and a: "set added = {t \<in> set ?ts. 0 < dd_get ind t \<and> dd_get ind t \<le> int (count_list ?ts t)}"
    by blast
  have done': "node_id ` set (order @ [n]) = insert nid ?done" using nid by auto
  have r: "remaining edges (insert nid ?done) t = remaining edges ?done t - int (count_list ?ts t)" for t
    using remaining_insert [OF dk nd] .
  have c1: "\<forall>t. dd_get ind' t = remaining edges (node_id ` set (order @ [n])) t"
    unfolding done' using g i1 r by simp
  have nn: "0 \<le> dd_get ind' t" for t
    using c1 remaining_nonneg by simp
  have nn0: "0 \<le> dd_get ind t" for t using i1 remaining_nonneg by simp
  have mem: "t \<in> set added \<longleftrightarrow> 0 < dd_get ind t \<and> dd_get ind' t = 0" for t
  proof -
    have "t \<notin> set ?ts \<Longrightarrow> count_list ?ts t = 0" by (simp add: count_list_0_iff)
    then show ?thesis using a g nn [of t] by (cases "t \<in> set ?ts") auto
  qed
  have added_ids: "set added \<subseteq> ?ids"
    using a edges_get_valid [OF valid] by auto
  have c3: "set q' \<union> node_id ` set (order @ [n]) = {t \<in> ?ids. dd_get ind' t = 0}"
  proof (rule set_eqI)
    fix t
    have "t \<in> set (nid # queue) \<union> ?done \<longleftrightarrow> t \<in> ?ids \<and> dd_get ind t = 0"
      using i3 by blast
    moreover have "dd_get ind t = 0 \<Longrightarrow> dd_get ind' t = 0"
      using g nn [of t] by auto
    ultimately show "t \<in> set q' \<union> node_id ` set (order @ [n]) \<longleftrightarrow> t \<in> {t \<in> ?ids. dd_get ind' t = 0}"
      unfolding done' q using mem [of t] added_ids nn0 [of t]
      by (cases "dd_get ind t = 0") auto
  qed
  have disj: "set added \<inter> (set (nid # queue) \<union> ?done) = {}"
  proof -
    have "t \<in> set (nid # queue) \<union> ?done \<Longrightarrow> dd_get ind t = 0" for t using i3 by blast
    then show ?thesis using mem by fastforce
  qed
  have c2: "distinct (q' @ map node_id (order @ [n]))"
    using i2 d disj nid unfolding q by auto
  have c4: "set (order @ [n]) \<subseteq> set nodes" using i4 n by simp
  have "remaining edges ?done nid = 0" using i1 z by simp
  then have "\<forall>s. (s, nid) \<in> edge_rel edges \<longrightarrow> s \<in> set (map node_id order)"
    by (simp add: remaining_zero_iff)
  from topo_ordered_snoc [OF i5 this] have c5: "topo_ordered edges (map node_id (order @ [n]))"
    using nid by simp
  from c1 c2 c3 c4 c5 show ?thesis unfolding kahn_inv_def by blast
qed

lemma kahn_loop_inv:
  "nm = build_node_map nodes \<Longrightarrow> distinct (map fst edges) \<Longrightarrow> edges_valid nodes edges \<Longrightarrow>
   kahn_inv nodes edges ind queue order \<Longrightarrow>
     \<exists>order' ind'. kahn_loop nm edges ind queue order = Inr order' \<and>
        kahn_inv nodes edges ind' [] order'"
proof (induction nm edges ind queue order rule: kahn_loop.induct)
  case (1 node_map edges indegree order)
  then show ?case by auto
next
  case (2 node_map edges indegree nid queue order)
  note nm = "2.prems"(1) and dk = "2.prems"(2) and valid = "2.prems"(3) and inv = "2.prems"(4)
  from inv have "nid \<in> node_id ` set nodes" unfolding kahn_inv_def by auto
  then obtain n where n: "map_of node_map nid = Some n"
    using build_node_map_None [of nodes nid] nm by auto
  let ?f = "fold relax (edges_get edges nid) (indegree, queue)"
  have n': "map_of (build_node_map nodes) nid = Some n" using n nm by simp
  have f: "?f = (fst ?f, snd ?f)" by simp
  have "kahn_inv nodes edges (fst ?f) (snd ?f) (order @ [n])"
    using kahn_inv_step [OF inv dk valid n' f] .
  from "2.IH" [OF n nm dk valid this] show ?case using n by simp
qed

lemma edges_valid_iff:
  "edges_valid nodes edges \<longleftrightarrow>
     (\<forall>(s, ts) \<in> set edges. s \<in> node_id ` set nodes \<and> set ts \<subseteq> node_id ` set nodes)"
proof
  assume v: "edges_valid nodes edges"
  show "\<forall>(s, ts) \<in> set edges. s \<in> node_id ` set nodes \<and> set ts \<subseteq> node_id ` set nodes"
  proof (clarify, intro conjI subsetI)
    fix s ts assume m: "(s, ts) \<in> set edges"
    then have "s \<in> fst ` set edges" by force
    with v show "s \<in> node_id ` set nodes"
      unfolding edges_valid_def dangling_source_def by blast
    fix t assume "t \<in> set ts"
    with m have "t \<in> \<Union> (set ` snd ` set edges)" by force
    with v show "t \<in> node_id ` set nodes"
      unfolding edges_valid_def dangling_target_def by blast
  qed
next
  assume "\<forall>(s, ts) \<in> set edges. s \<in> node_id ` set nodes \<and> set ts \<subseteq> node_id ` set nodes"
  then have h: "\<And>s ts. (s, ts) \<in> set edges \<Longrightarrow> s \<in> node_id ` set nodes \<and> set ts \<subseteq> node_id ` set nodes"
    by blast
  show "edges_valid nodes edges"
    unfolding edges_valid_def dangling_source_def dangling_target_def
  proof (intro allI conjI notI; elim conjE)
    fix d assume "d \<in> fst ` set edges" and n: "d \<notin> node_id ` set nodes"
    then obtain ts where "(d, ts) \<in> set edges" by force
    from h [OF this] n show False by simp
  next
    fix d assume "d \<in> \<Union> (set ` snd ` set edges)" and n: "d \<notin> node_id ` set nodes"
    then obtain s ts where "(s, ts) \<in> set edges" and "d \<in> set ts" by force
    with h [of s ts] n show False by blast
  qed
qed

lemma edge_rel_valid:
  "edges_valid nodes edges \<Longrightarrow> (s, t) \<in> edge_rel edges \<Longrightarrow>
     s \<in> node_id ` set nodes \<and> t \<in> node_id ` set nodes"
  unfolding edges_valid_iff edge_rel_def by auto

lemma initial_queue:
  assumes "distinct (map fst ind)"
  shows "distinct (map fst (filter (\<lambda>(k, deg). deg = 0) ind))"
    and "set (map fst (filter (\<lambda>(k, deg). deg = (0::int)) ind)) =
           {t \<in> fst ` set ind. dd_get ind t = 0}"
proof -
  show "distinct (map fst (filter (\<lambda>(k, deg). deg = 0) ind))"
    using assms by (rule distinct_map_filter)
  have m: "(t, d) \<in> set ind \<longleftrightarrow> map_of ind t = Some d" for t d
    using assms by simp
  show "set (map fst (filter (\<lambda>(k, deg). deg = (0::int)) ind)) =
           {t \<in> fst ` set ind. dd_get ind t = 0}"
  proof (rule set_eqI)
    fix t
    have "t \<in> set (map fst (filter (\<lambda>(k, deg). deg = (0::int)) ind)) \<longleftrightarrow> (t, 0) \<in> set ind"
      by force
    also have "\<dots> \<longleftrightarrow> map_of ind t = Some 0" by (rule m)
    also have "\<dots> \<longleftrightarrow> t \<in> fst ` set ind \<and> dd_get ind t = 0"
    proof (cases "map_of ind t")
      case None
      then have "t \<notin> fst ` set ind" by (simp add: map_of_eq_None_iff)
      with None show ?thesis by simp
    next
      case (Some d)
      then have "t \<in> fst ` set ind" using m [of t d] by force
      with Some show ?thesis by (simp add: dd_get_def)
    qed
    finally show "t \<in> set (map fst (filter (\<lambda>(k, deg). deg = (0::int)) ind)) \<longleftrightarrow>
        t \<in> {t \<in> fst ` set ind. dd_get ind t = 0}" by simp
  qed
qed

lemma kahn_initial:
  assumes dk: "distinct (map fst edges)" and valid: "edges_valid nodes edges"
  shows "\<exists>ind0. count_edges (build_node_map nodes) edges (init_indegree nodes) = Inr ind0 \<and>
           kahn_inv nodes edges ind0 (map fst (filter (\<lambda>(k, deg). deg = 0) ind0)) []"
proof -
  let ?nm = "build_node_map nodes" and ?init = "init_indegree nodes"
  have "\<forall>(s, ts) \<in> set edges. map_of ?nm s \<noteq> None \<and>
          (\<forall>t \<in> set ts. map_of ?nm t \<noteq> None \<and> t \<in> fst ` set ?init)"
    using valid unfolding edges_valid_iff build_node_map_None init_indegree_props by auto
  from count_edges_Inr [OF this] obtain ind0 where
    c: "count_edges ?nm edges ?init = Inr ind0" and k: "map fst ind0 = map fst ?init"
    and g: "\<forall>t. dd_get ind0 t = dd_get ?init t + sum_list (map (\<lambda>(s, ts). int (count_list ts t)) edges)"
    by blast
  have dist: "distinct (map fst ind0)" using k init_indegree_props(1) by simp
  have keys: "fst ` set ind0 = node_id ` set nodes"
    using k init_indegree_props(2) by (metis list.set_map)
  have r: "\<forall>t. dd_get ind0 t = remaining edges (node_id ` set []) t"
    using g by (simp add: init_indegree_props remaining_def)
  have "kahn_inv nodes edges ind0 (map fst (filter (\<lambda>(k, deg). deg = 0) ind0)) []"
    unfolding kahn_inv_def using r initial_queue [OF dist] keys
    by (simp add: topo_ordered_def)
  with c show ?thesis by blast
qed

lemma topological_sort_kahn:
  assumes dk: "distinct (map fst edges)" and valid: "edges_valid nodes edges"
  shows "\<exists>order ind. kahn_inv nodes edges ind [] order \<and>
           topological_sort nodes edges =
             (if length order \<noteq> length nodes
              then Inl (ValueError ''Workflow graph has a cycle'') else Inr order)"
proof -
  from kahn_initial [OF dk valid] obtain ind0 where
    c: "count_edges (build_node_map nodes) edges (init_indegree nodes) = Inr ind0"
    and i: "kahn_inv nodes edges ind0 (map fst (filter (\<lambda>(k, deg). deg = 0) ind0)) []"
    by blast
  from kahn_loop_inv [OF refl dk valid i] obtain order ind where
    l: "kahn_loop (build_node_map nodes) edges ind0
          (map fst (filter (\<lambda>(k, deg). deg = 0) ind0)) [] = Inr order"
    and f: "kahn_inv nodes edges ind [] order" by blast
  have "topological_sort nodes edges =
          (if length order \<noteq> length nodes
           then Inl (ValueError ''Workflow graph has a cycle'') else Inr order)"
    using c l by (simp add: topological_sort_def)
  with f show ?thesis by blast
qed

lemma finite_edge_rel: "finite (edge_rel edges)"
proof -
  have "edge_rel edges \<subseteq> fst ` set edges \<times> \<Union> (set ` snd ` set edges)"
    unfolding edge_rel_def by force
  then show ?thesis by (rule finite_subset) simp
qed

lemma kahn_final_acyclic:
  assumes inv: "kahn_inv nodes edges ind [] order" and ac: "acyclic (edge_rel edges)"
    and valid: "edges_valid nodes edges"
  shows "node_id ` set order = node_id ` set nodes"
proof (rule ccontr)
  let ?done = "node_id ` set order" and ?ids = "node_id ` set nodes"
  have i1: "dd_get ind t = remaining edges ?done t" for t
    using kahn_invD(1) [OF inv] by (rule spec)
  have i3: "?done = {t \<in> ?ids. dd_get ind t = 0}"
    using kahn_invD(3) [OF inv] by (simp only: list.set Un_empty_left)
  have sub: "?done \<subseteq> ?ids" by (subst i3) simp
  have mem: "t \<in> ?ids \<Longrightarrow> dd_get ind t = 0 \<Longrightarrow> t \<in> ?done" for t
    by (subst i3) simp
  assume "?done \<noteq> ?ids"
  with sub obtain x where x: "x \<in> ?ids - ?done" by auto
  have "wf (edge_rel edges)" using finite_edge_rel ac by (rule finite_acyclic_wf)
  from wfE_min [OF this x] obtain z where z: "z \<in> ?ids - ?done"
    and m: "\<And>y. (y, z) \<in> edge_rel edges \<Longrightarrow> y \<notin> ?ids - ?done" by metis
  from z mem [of z] have "dd_get ind z \<noteq> 0" by auto
  then have "remaining edges ?done z \<noteq> 0" using i1 by simp
  then obtain s where s: "(s, z) \<in> edge_rel edges" and sd: "s \<notin> ?done"
    unfolding remaining_zero_iff by auto
  from edge_rel_valid [OF valid s] sd have "s \<in> ?ids - ?done" by simp
  with m [OF s] show False by contradiction
qed

lemma topo_ordered_trancl:
  assumes "topo_ordered edges xs" and "(s, t) \<in> (edge_rel edges)\<^sup>+"
  shows "\<forall>j < length xs. xs ! j = t \<longrightarrow> (\<exists>i < j. xs ! i = s)"
  using assms(2)
proof (induction rule: trancl_induct)
  case (base y)
  show ?case
  proof (intro allI impI)
    fix j assume j: "j < length xs" and y: "xs ! j = y"
    with assms(1) base have "s \<in> set (take j xs)" unfolding topo_ordered_def by blast
    then obtain i where "i < length (take j xs)" and "take j xs ! i = s"
      unfolding in_set_conv_nth by blast
    then show "\<exists>i < j. xs ! i = s" using j by auto
  qed
next
  case (step y z)
  show ?case
  proof (intro allI impI)
    fix j assume j: "j < length xs" and z: "xs ! j = z"
    with assms(1) step.hyps(2) have "y \<in> set (take j xs)" unfolding topo_ordered_def by blast
    then obtain k where k: "k < length (take j xs)" and yk: "take j xs ! k = y"
      unfolding in_set_conv_nth by blast
    then have "k < j" and "k < length xs" and "xs ! k = y" using j by auto
    with step.IH obtain i where "i < k" and "xs ! i = s" by blast
    with \<open>k < j\<close> have "i < j \<and> xs ! i = s" by simp
    then show "\<exists>i < j. xs ! i = s" by blast
  qed
qed

lemma kahn_final_cyclic:
  assumes inv: "kahn_inv nodes edges ind [] order" and cyc: "(v, v) \<in> (edge_rel edges)\<^sup>+"
  shows "v \<notin> node_id ` set order"
proof
  assume "v \<in> node_id ` set order"
  then have "v \<in> set (map node_id order)" by simp
  then obtain j where j: "j < length (map node_id order)" and vj: "map node_id order ! j = v"
    unfolding in_set_conv_nth by blast
  have t: "topo_ordered edges (map node_id order)" by (rule kahn_invD(5) [OF inv])
  have d: "distinct (map node_id order)"
    using kahn_invD(2) [OF inv] by (simp only: append_Nil)
  from topo_ordered_trancl [OF t cyc] j vj obtain i where "i < j" and "map node_id order ! i = v"
    by blast
  moreover from \<open>i < j\<close> j have "i < length (map node_id order)" by simp
  ultimately show False using d j vj \<open>i < j\<close> by (auto simp: distinct_conv_nth)
qed


lemma card_ids: "distinct (map node_id xs) \<Longrightarrow> card (node_id ` set xs) = length xs"
  using distinct_card [of "map node_id xs"] by simp

lemma same_ids_same_nodes:
  assumes dn: "distinct (map node_id nodes)" and sub: "set order \<subseteq> set nodes"
    and ids: "node_id ` set order = node_id ` set nodes"
  shows "set order = set nodes"
proof
  show "set order \<subseteq> set nodes" by (rule sub)
  show "set nodes \<subseteq> set order"
  proof
    fix n assume n: "n \<in> set nodes"
    then have "node_id n \<in> node_id ` set order" using ids by blast
    then obtain m where m: "m \<in> set order" and e: "node_id m = node_id n" by auto
    from dn have "inj_on node_id (set nodes)" by (simp add: distinct_map)
    with m sub n e have "m = n" by (auto dest: inj_onD)
    with m show "n \<in> set order" by simp
  qed
qed

lemma topological_sort_acyclic:
  assumes dk: "distinct (map fst edges)" and dn: "distinct (map node_id nodes)"
    and valid: "edges_valid nodes edges" and ac: "acyclic (edge_rel edges)"
  shows "\<exists>order. topological_sort nodes edges = Inr order \<and> distinct (map node_id order) \<and>
           set order = set nodes \<and> topo_ordered edges (map node_id order)"
proof -
  from topological_sort_kahn [OF dk valid] obtain order ind where
    inv: "kahn_inv nodes edges ind [] order"
    and t: "topological_sort nodes edges =
             (if length order \<noteq> length nodes
              then Inl (ValueError ''Workflow graph has a cycle'') else Inr order)"
    by blast
  have d: "distinct (map node_id order)"
    using kahn_invD(2) [OF inv] by (simp only: append_Nil)
  have ids: "node_id ` set order = node_id ` set nodes"
    by (rule kahn_final_acyclic [OF inv ac valid])
  have len: "length order = length nodes"
    using card_ids [OF d] card_ids [OF dn] ids by simp
  have "set order = set nodes"
    by (rule same_ids_same_nodes [OF dn kahn_invD(4) [OF inv] ids])
  with t len d kahn_invD(5) [OF inv] show ?thesis by simp
qed

lemma topological_sort_cyclic:
  assumes dk: "distinct (map fst edges)" and valid: "edges_valid nodes edges"
    and cyc: "(v, v) \<in> (edge_rel edges)\<^sup>+"
  shows "topological_sort nodes edges = Inl (ValueError ''Workflow graph has a cycle'')"
proof -
  from topological_sort_kahn [OF dk valid] obtain order ind where
    inv: "kahn_inv nodes edges ind [] order"
    and t: "topological_sort nodes edges =
             (if length order \<noteq> length nodes
              then Inl (ValueError ''Workflow graph has a cycle'') else Inr order)"
    by blast
  have d: "distinct (map node_id order)"
    using kahn_invD(2) [OF inv] by (simp only: append_Nil)
  from cyc obtain s where "(s, v) \<in> edge_rel edges" by (meson tranclD2)
  from edge_rel_valid [OF valid this] have v: "v \<in> node_id ` set nodes" by simp
  have nv: "v \<notin> node_id ` set order" by (rule kahn_final_cyclic [OF inv cyc])
  have "node_id ` set order \<subseteq> node_id ` set nodes" using kahn_invD(4) [OF inv] by blast
  with v nv have "node_id ` set order \<subset> node_id ` set nodes" by blast
  then have "card (node_id ` set order) < card (node_id ` set nodes)"
    by (simp add: psubset_card_mono)
  moreover have "card (node_id ` set nodes) \<le> length nodes"
    using card_length [of "map node_id nodes"] by simp
  ultimately have "length order \<noteq> length nodes" using card_ids [OF d] by simp
  with t show ?thesis by simp
qed

lemma topological_sort_Inr:
  assumes dk: "distinct (map fst edges)" and dn: "distinct (map node_id nodes)"
    and t: "topological_sort nodes edges = Inr order"
  shows "edges_valid nodes edges" and "distinct (map node_id order)"
    and "set order = set nodes" and "topo_ordered edges (map node_id order)"
proof -
  show valid: "edges_valid nodes edges"
  proof (rule ccontr)
    assume "\<not> edges_valid nodes edges"
    then obtain d where "dangling_source nodes edges d \<or> dangling_target nodes edges d"
      unfolding edges_valid_def by blast
    from topological_sort_dangling [OF this] t show False by auto
  qed
  from topological_sort_kahn [OF dk valid] obtain order' ind where
    inv: "kahn_inv nodes edges ind [] order'"
    and t': "topological_sort nodes edges =
             (if length order' \<noteq> length nodes
              then Inl (ValueError ''Workflow graph has a cycle'') else Inr order')"
    by blast
  from t t' have len: "length order' = length nodes" and o: "order' = order"
    by (auto split: if_splits)
  show d: "distinct (map node_id order)"
    using kahn_invD(2) [OF inv] o by (simp only: append_Nil)
  show "topo_ordered edges (map node_id order)" using kahn_invD(5) [OF inv] o by simp
  have sub: "set order \<subseteq> set nodes" using kahn_invD(4) [OF inv] o by simp
  have "card (node_id ` set order) = card (node_id ` set nodes)"
    using card_ids [OF d] card_ids [OF dn] len o by simp
  moreover have "node_id ` set order \<subseteq> node_id ` set nodes" using sub by blast
  ultimately have "node_id ` set order = node_id ` set nodes"
    by (simp add: card_subset_eq)
  from same_ids_same_nodes [OF dn sub this] show "set order = set nodes" .
qed

text \<open>
  Two nodes sharing an id collapse to one entry of \<open>node_map\<close>, so the sort emits fewer
  nodes than the workflow lists and reports a cycle, whatever the edges are.
\<close>

lemma topological_sort_duplicate_ids:
  assumes dk: "distinct (map fst edges)" and valid: "edges_valid nodes edges"
    and dup: "\<not> distinct (map node_id nodes)"
  shows "topological_sort nodes edges = Inl (ValueError ''Workflow graph has a cycle'')"
proof -
  from topological_sort_kahn [OF dk valid] obtain order ind where
    inv: "kahn_inv nodes edges ind [] order"
    and t: "topological_sort nodes edges =
             (if length order \<noteq> length nodes
              then Inl (ValueError ''Workflow graph has a cycle'') else Inr order)"
    by blast
  have d: "distinct (map node_id order)"
    using kahn_invD(2) [OF inv] by (simp only: append_Nil)
  have "node_id ` set order \<subseteq> node_id ` set nodes" using kahn_invD(4) [OF inv] by blast
  then have "card (node_id ` set order) \<le> card (node_id ` set nodes)"
    by (simp add: card_mono)
  moreover have "card (node_id ` set nodes) < length nodes"
  proof -
    have "card (set (map node_id nodes)) \<noteq> length (map node_id nodes)"
      using dup card_distinct by blast
    then show ?thesis using card_length [of "map node_id nodes"] by simp
  qed
  ultimately have "length order \<noteq> length nodes" using card_ids [OF d] by simp
  with t show ?thesis by simp
qed

lemma run_cycle_no_invocation:
  assumes "distinct (map fst (wf_edges workflow))"
    and "(v, v) \<in> (edge_rel (wf_edges workflow))\<^sup>+"
  shows "\<exists>e. run registry workflow input_data = ([], Inl e)"
proof (cases "edges_valid (wf_nodes workflow) (wf_edges workflow)")
  case True
  from topological_sort_cyclic [OF assms(1) True assms(2)] show ?thesis
    by (simp add: run_def)
next
  case False
  then obtain d where "dangling_source (wf_nodes workflow) (wf_edges workflow) d \<or>
      dangling_target (wf_nodes workflow) (wf_edges workflow) d"
    unfolding edges_valid_def by blast
  from topological_sort_dangling [OF this] show ?thesis by (auto simp: run_def)
qed

text \<open>
  C3. When the edge map references only existing node ids and the graph it describes has a
  cycle through one or more nodes, \<open>run\<close> fails with the cycle \<open>ValueError\<close> and no handler
  has been invoked.
\<close>

theorem run_cyclic_graph:
  assumes "distinct (map fst (wf_edges workflow))"
    and "edges_valid (wf_nodes workflow) (wf_edges workflow)"
    and "(v, v) \<in> (edge_rel (wf_edges workflow))\<^sup>+"
  shows "run registry workflow input_data =
           ([], Inl (ValueError ''Workflow graph has a cycle''))"
  using topological_sort_cyclic [OF assms] by (simp add: run_def)

theorem run_cyclic_graph_witness:
  "distinct (map fst [(''a'', [''b'']), (''b'', [''a''])]) \<and>
   edges_valid [trigger_node ''a'', trigger_node ''b''] [(''a'', [''b'']), (''b'', [''a''])] \<and>
   (''a'', ''a'') \<in> (edge_rel [(''a'', [''b'']), (''b'', [''a''])])\<^sup>+ \<and>
   run example_registry
     (example_workflow [trigger_node ''a'', trigger_node ''b'']
        [(''a'', [''b'']), (''b'', [''a''])])
     [(''message'', PStr ''hi'')] =
     ([], Inl (ValueError ''Workflow graph has a cycle''))"
proof -
  let ?ns = "[trigger_node ''a'', trigger_node ''b'']"
  let ?es = "[(''a'', [''b'']), (''b'', [''a''])]"
  let ?w = "example_workflow ?ns ?es"
  have h1: "distinct (map fst (wf_edges ?w))" by (simp add: example_workflow_def)
  have v: "edges_valid ?ns ?es"
    by (simp add: edges_valid_iff trigger_node_def)
  then have h2: "edges_valid (wf_nodes ?w) (wf_edges ?w)" by (simp add: example_workflow_def)
  have "(''a'', ''b'') \<in> edge_rel ?es" and "(''b'', ''a'') \<in> edge_rel ?es"
    by (simp_all add: edge_rel_def)
  then have c: "(''a'', ''a'') \<in> (edge_rel ?es)\<^sup>+" by (rule trancl_into_trancl [OF r_into_trancl])
  then have h3: "(''a'', ''a'') \<in> (edge_rel (wf_edges ?w))\<^sup>+" by (simp add: example_workflow_def)
  from run_cyclic_graph [OF h1 h2 h3] v c show ?thesis by simp
qed

section \<open>The run loop\<close>

lemma merge_parent_payloads_cong:
  assumes "\<forall>s \<in> set (incoming n edges). map_of r1 s = map_of r2 s"
  shows "merge_parent_payloads n edges r1 = merge_parent_payloads n edges r2"
proof -
  have "fold (\<lambda>source merged. dict_update merged (results_get r1 source)) xs acc =
        fold (\<lambda>source merged. dict_update merged (results_get r2 source)) xs acc"
    if "\<forall>s \<in> set xs. map_of r1 s = map_of r2 s" for xs acc
    using that by (induction xs arbitrary: acc) (simp_all add: results_get_def)
  from this [OF assms] show ?thesis by (simp add: merge_parent_payloads_def)
qed

lemma run_loop_step:
  "run_loop registry edges input_data (n # ns) results calls =
     (case registry (node_type n) of
        None \<Rightarrow> (calls, results, Some (KeyError (''Unknown node type: '' @ node_type n)))
      | Some handler \<Rightarrow>
          (case handler (node_params n) (resolve_input edges results input_data n) of
             Inl e \<Rightarrow> (calls @ [(n, resolve_input edges results input_data n)], results, Some e)
           | Inr out \<Rightarrow>
               run_loop registry edges input_data ns (AList.update (node_id n) out results)
                 (calls @ [(n, resolve_input edges results input_data n)])))"
  unfolding run_loop.simps Let_def resolve_input_def registry_get_def
  by (cases "registry (node_type n)") simp_all

lemma loop_specD:
  assumes "loop_spec registry edges input_data ns results cs R err"
  shows "map fst cs = take (length cs) ns"
    and "err = None \<longrightarrow> length cs = length ns"
    and "\<forall>x. x \<notin> node_id ` set ns \<longrightarrow> map_of R x = map_of results x"
    and "\<forall>i < length cs. snd (cs ! i) = resolve_input edges R input_data (ns ! i)"
    and "\<forall>i < length cs. i + 1 < length cs \<or> err = None \<longrightarrow>
        (\<exists>h out. registry (node_type (ns ! i)) = Some h \<and>
             h (node_params (ns ! i)) (snd (cs ! i)) = Inr out \<and>
             map_of R (node_id (ns ! i)) = Some out)"
proof -
  note c = assms [unfolded loop_spec_def]
  show "map fst cs = take (length cs) ns" using c by (elim conjE)
  show "err = None \<longrightarrow> length cs = length ns" using c by (elim conjE)
  show "\<forall>x. x \<notin> node_id ` set ns \<longrightarrow> map_of R x = map_of results x" using c by (elim conjE)
  show "\<forall>i < length cs. snd (cs ! i) = resolve_input edges R input_data (ns ! i)"
    using c by (elim conjE)
  show "\<forall>i < length cs. i + 1 < length cs \<or> err = None \<longrightarrow>
        (\<exists>h out. registry (node_type (ns ! i)) = Some h \<and>
             h (node_params (ns ! i)) (snd (cs ! i)) = Inr out \<and>
             map_of R (node_id (ns ! i)) = Some out)"
    using c by (elim conjE)
qed

lemma run_loop_spec:
  assumes "distinct (map node_id (pre @ ns))"
    and "\<forall>i < length ns. set (incoming (ns ! i) edges) \<subseteq> node_id ` set (pre @ take i ns)"
    and "run_loop registry edges input_data ns results calls = (calls', R, err)"
  shows "\<exists>cs. calls' = calls @ cs \<and> loop_spec registry edges input_data ns results cs R err"
  using assms
proof (induction ns arbitrary: pre results calls)
  case Nil
  then show ?case by (simp add: loop_spec_def)
next
  case (Cons n ns)
  let ?pp = "resolve_input edges results input_data n"
  note run = Cons.prems(3) [unfolded run_loop_step]
  show ?case
  proof (cases "registry (node_type n)")
    case None
    with run have "calls' = calls" "R = results"
      "err = Some (KeyError (''Unknown node type: '' @ node_type n))" by auto
    then show ?thesis by (simp add: loop_spec_def)
  next
    case (Some handler)
    note h = this
    show ?thesis
    proof (cases "handler (node_params n) ?pp")
      case (Inl e)
      with run h have "calls' = calls @ [(n, ?pp)]" "R = results" "err = Some e" by auto
      then show ?thesis by (simp add: loop_spec_def)
    next
      case (Inr out)
      let ?results' = "AList.update (node_id n) out results"
      from run h Inr have r: "run_loop registry edges input_data ns ?results' (calls @ [(n, ?pp)]) = (calls', R, err)"
        by simp
      have d: "distinct (map node_id ((pre @ [n]) @ ns))" using Cons.prems(1) by simp
      have inc: "\<forall>i < length ns. set (incoming (ns ! i) edges) \<subseteq> node_id ` set ((pre @ [n]) @ take i ns)"
      proof (intro allI impI)
        fix i assume "i < length ns"
        then have "Suc i < length (n # ns)" by simp
        with Cons.prems(2) have "set (incoming ((n # ns) ! Suc i) edges) \<subseteq> node_id ` set (pre @ take (Suc i) (n # ns))"
          by blast
        then show "set (incoming (ns ! i) edges) \<subseteq> node_id ` set ((pre @ [n]) @ take i ns)" by simp
      qed
      from Cons.IH [OF d inc r] obtain cs where
        c: "calls' = (calls @ [(n, ?pp)]) @ cs"
        and sp: "loop_spec registry edges input_data ns ?results' cs R err" by blast
      note s1 = loop_specD(1) [OF sp] and s2 = loop_specD(2) [OF sp]
        and s3 = loop_specD(3) [OF sp, rule_format] and s4 = loop_specD(4) [OF sp, rule_format]
        and s5 = loop_specD(5) [OF sp, rule_format]
      let ?cs = "(n, ?pp) # cs"
      have nn: "node_id n \<notin> node_id ` set ns" using Cons.prems(1) by auto
      have Rn: "map_of R (node_id n) = Some out"
        using s3 [OF nn] by (simp add: update_conv')
      have t1: "map fst ?cs = take (length ?cs) (n # ns)" using s1 by simp
      have t2: "err = None \<longrightarrow> length ?cs = length (n # ns)" using s2 by simp
      have t3: "\<forall>x. x \<notin> node_id ` set (n # ns) \<longrightarrow> map_of R x = map_of results x"
        using s3 by (simp add: update_conv')
      have pre_in: "set (incoming n edges) \<subseteq> node_id ` set pre"
        using Cons.prems(2) [rule_format, of 0] by simp
      have "\<forall>s \<in> set (incoming n edges). map_of results s = map_of R s"
      proof
        fix s assume "s \<in> set (incoming n edges)"
        with pre_in have "s \<in> node_id ` set pre" by blast
        moreover from Cons.prems(1)
        have "node_id ` set pre \<inter> node_id ` set (n # ns) = {}" by auto
        ultimately have "s \<notin> node_id ` set (n # ns)" by blast
        with t3 show "map_of results s = map_of R s" by simp
      qed
      from merge_parent_payloads_cong [OF this]
      have pp: "?pp = resolve_input edges R input_data n" by (simp add: resolve_input_def)
      have t4: "\<forall>i < length ?cs. snd (?cs ! i) = resolve_input edges R input_data ((n # ns) ! i)"
      proof (intro allI impI)
        fix i assume "i < length ?cs"
        then show "snd (?cs ! i) = resolve_input edges R input_data ((n # ns) ! i)"
          using pp s4 by (cases i) simp_all
      qed
      have t5: "\<forall>i < length ?cs. i + 1 < length ?cs \<or> err = None \<longrightarrow>
          (\<exists>h out. registry (node_type ((n # ns) ! i)) = Some h \<and>
             h (node_params ((n # ns) ! i)) (snd (?cs ! i)) = Inr out \<and>
             map_of R (node_id ((n # ns) ! i)) = Some out)"
      proof (intro allI impI)
        fix i assume i: "i < length ?cs" and e: "i + 1 < length ?cs \<or> err = None"
        show "\<exists>h out. registry (node_type ((n # ns) ! i)) = Some h \<and>
             h (node_params ((n # ns) ! i)) (snd (?cs ! i)) = Inr out \<and>
             map_of R (node_id ((n # ns) ! i)) = Some out"
        proof (cases i)
          case 0
          then show ?thesis using h Inr Rn by simp
        next
          case (Suc k)
          with i e have "k < length cs" and "k + 1 < length cs \<or> err = None" by auto
          from s5 [OF this] show ?thesis using Suc by simp
        qed
      qed
      have "loop_spec registry edges input_data (n # ns) results ?cs R err"
        unfolding loop_spec_def using t1 t2 t3 t4 t5 by (intro conjI)
      moreover have "calls' = calls @ ?cs" using c by simp
      ultimately show ?thesis by blast
    qed
  qed
qed

lemma run_loop_total:
  assumes "\<forall>n \<in> set ns. \<exists>h. registry (node_type n) = Some h \<and>
             (\<forall>p. \<exists>out. h (node_params n) p = Inr out)"
  shows "\<exists>calls' R. run_loop registry edges input_data ns results calls = (calls', R, None)"
  using assms
proof (induction ns arbitrary: results calls)
  case Nil
  then show ?case by simp
next
  case (Cons n ns)
  from Cons.prems obtain h where h: "registry (node_type n) = Some h"
    and t: "\<forall>p. \<exists>out. h (node_params n) p = Inr out" by auto
  from t obtain out where o: "h (node_params n) (resolve_input edges results input_data n) = Inr out"
    by blast
  from Cons.prems have "\<forall>n \<in> set ns. \<exists>h. registry (node_type n) = Some h \<and>
             (\<forall>p. \<exists>out. h (node_params n) p = Inr out)" by simp
  from Cons.IH [OF this] show ?case unfolding run_loop_step using h o by simp
qed

lemma incoming_edge_rel: "s \<in> set (incoming n edges) \<longleftrightarrow> (s, node_id n) \<in> edge_rel edges"
  by (force simp: incoming_def edge_rel_def)

lemma topo_ordered_incoming:
  assumes "topo_ordered edges (map node_id order)"
  shows "\<forall>i < length order. set (incoming (order ! i) edges) \<subseteq> node_id ` set ([] @ take i order)"
proof (intro allI impI subsetI)
  fix i s assume i: "i < length order" and s: "s \<in> set (incoming (order ! i) edges)"
  then have "(s, map node_id order ! i) \<in> edge_rel edges" by (simp add: incoming_edge_rel)
  with assms i have "s \<in> set (take i (map node_id order))" unfolding topo_ordered_def by simp
  then show "s \<in> node_id ` set ([] @ take i order)" by (simp add: take_map)
qed

lemma run_after_sort:
  assumes dk: "distinct (map fst (wf_edges workflow))"
    and dn: "distinct (map node_id (wf_nodes workflow))"
    and t: "topological_sort (wf_nodes workflow) (wf_edges workflow) = Inr order"
    and r: "run registry workflow input_data = (calls, outcome)"
  shows "\<exists>R err. run_loop registry (wf_edges workflow) input_data order [] [] = (calls, R, err) \<and>
           loop_spec registry (wf_edges workflow) input_data order [] calls R err \<and>
           outcome = (case err of Some e \<Rightarrow> Inl e
                      | None \<Rightarrow> if order = [] then Inr input_data
                                else (case map_of R (node_id (last order)) of
                                        None \<Rightarrow> Inl (KeyError (node_id (last order)))
                                      | Some out \<Rightarrow> Inr out))"
proof -
  obtain calls' R err where
    l: "run_loop registry (wf_edges workflow) input_data order [] [] = (calls', R, err)"
    by (cases "run_loop registry (wf_edges workflow) input_data order [] []") auto
  note ts = topological_sort_Inr [OF dk dn t]
  have d: "distinct (map node_id ([] @ order))" using ts(2) by simp
  from run_loop_spec [OF d topo_ordered_incoming [OF ts(4)] l] obtain cs where
    c: "calls' = [] @ cs"
    and sp: "loop_spec registry (wf_edges workflow) input_data order [] cs R err" by blast
  from r t l have "calls = calls'"
    by (auto simp: run_def split: option.splits if_splits)
  moreover from r t l have "outcome = (case err of Some e \<Rightarrow> Inl e
                      | None \<Rightarrow> if order = [] then Inr input_data
                                else (case map_of R (node_id (last order)) of
                                        None \<Rightarrow> Inl (KeyError (node_id (last order)))
                                      | Some out \<Rightarrow> Inr out))"
    by (auto simp: run_def split: option.splits if_splits)
  ultimately show ?thesis using c sp l by auto
qed

lemma run_sort_failed:
  assumes "topological_sort (wf_nodes workflow) (wf_edges workflow) = Inl e"
  shows "run registry workflow input_data = ([], Inl e)"
  using assms by (simp add: run_def)

lemma map_of_dict_update:
  "distinct (map fst other) \<Longrightarrow> map_of (dict_update d other) = map_of d ++ map_of other"
proof (induction other arbitrary: d)
  case Nil
  then show ?case by (simp add: dict_update_def)
next
  case (Cons kv other)
  obtain k v where kv: "kv = (k, v)" by (cases kv)
  from Cons.prems kv have nk: "map_of other k = None" and d: "distinct (map fst other)"
    by (auto simp: map_of_eq_None_iff)
  have "dict_update d (kv # other) = dict_update (AList.update k v d) other"
    using kv by (simp add: dict_update_def)
  then have "map_of (dict_update d (kv # other)) = map_of (AList.update k v d) ++ map_of other"
    using Cons.IH [OF d] by simp
  then have "map_of (dict_update d (kv # other)) = (map_of d)(k \<mapsto> v) ++ map_of other"
    by (simp only: update_conv')
  also have "\<dots> = map_of d ++ map_of (kv # other)"
    using nk kv by (auto simp: map_add_def fun_eq_iff split: option.splits)
  finally show ?case .
qed

lemma fold_dict_update_field:
  "\<forall>out \<in> set outs. distinct (map fst out) \<Longrightarrow>
     map_of (fold (\<lambda>out merged. dict_update merged out) outs acc) k =
       (case last_writer outs k of Some v \<Rightarrow> Some v | None \<Rightarrow> map_of acc k)"
proof (induction outs arbitrary: acc)
  case Nil
  then show ?case by simp
next
  case (Cons out outs)
  then have "map_of (dict_update acc out) = map_of acc ++ map_of out"
    by (simp add: map_of_dict_update)
  then show ?case using Cons by (simp add: map_add_def split: option.splits)
qed

lemma upstream_merge_field:
  "\<forall>out \<in> set outs. distinct (map fst out) \<Longrightarrow>
     map_of (upstream_merge outs) k = last_writer outs k"
  by (simp add: upstream_merge_def fold_dict_update_field split: option.splits)

lemma merge_parent_payloads_eq:
  "merge_parent_payloads n edges results =
     upstream_merge (map (results_get results) (incoming n edges))"
  by (simp add: merge_parent_payloads_def upstream_merge_def fold_map comp_def)

lemma upstream_merge_empty: "\<forall>out \<in> set outs. out = [] \<Longrightarrow> upstream_merge outs = []"
proof -
  have "fold (\<lambda>out merged. dict_update merged out) outs acc = acc"
    if "\<forall>out \<in> set outs. out = []" for acc :: payload
    using that by (induction outs) (simp_all add: dict_update_def)
  then show "\<forall>out \<in> set outs. out = [] \<Longrightarrow> upstream_merge outs = []"
    by (simp add: upstream_merge_def)
qed

lemma run_call_spec:
  assumes dk: "distinct (map fst (wf_edges workflow))"
    and dn: "distinct (map node_id (wf_nodes workflow))"
    and r: "run registry workflow input_data = (calls, outcome)"
    and j: "j < length calls" and c: "calls ! j = (n, p)"
  shows "\<exists>R. p = resolve_input (wf_edges workflow) R input_data n \<and>
           (\<forall>s \<in> set (incoming n (wf_edges workflow)).
              \<exists>i < j. \<exists>h out. node_id (fst (calls ! i)) = s \<and>
                 registry (node_type (fst (calls ! i))) = Some h \<and>
                 h (node_params (fst (calls ! i))) (snd (calls ! i)) = Inr out \<and>
                 map_of R s = Some out)"
proof (cases "topological_sort (wf_nodes workflow) (wf_edges workflow)")
  case (Inl e)
  from run_sort_failed [OF this] r j show ?thesis by simp
next
  case (Inr order)
  let ?edges = "wf_edges workflow"
  from run_after_sort [OF dk dn Inr r] obtain R err where
    sp: "loop_spec registry ?edges input_data order [] calls R err" by blast
  note s1 = loop_specD(1) [OF sp] and s4 = loop_specD(4) [OF sp, rule_format]
    and s5 = loop_specD(5) [OF sp, rule_format]
  note ts = topological_sort_Inr [OF dk dn Inr]
  have len: "length calls \<le> length order"
    using arg_cong [OF s1, of length] by simp
  have fst_calls: "fst (calls ! i) = order ! i" if "i < length calls" for i
  proof -
    have "fst (calls ! i) = map fst calls ! i" using that by simp
    also have "\<dots> = take (length calls) order ! i" using s1 by simp
    also have "\<dots> = order ! i" using that by simp
    finally show ?thesis .
  qed
  have n: "n = order ! j" using fst_calls [OF j] c by simp
  have p: "p = resolve_input ?edges R input_data n" using s4 [OF j] c n by simp
  have "\<exists>i < j. \<exists>h out. node_id (fst (calls ! i)) = s \<and>
                 registry (node_type (fst (calls ! i))) = Some h \<and>
                 h (node_params (fst (calls ! i))) (snd (calls ! i)) = Inr out \<and>
                 map_of R s = Some out"
    if s: "s \<in> set (incoming n ?edges)" for s
  proof -
    from s have "(s, map node_id order ! j) \<in> edge_rel ?edges"
      using n j len by (simp add: incoming_edge_rel)
    with ts(4) j len have "s \<in> set (take j (map node_id order))"
      unfolding topo_ordered_def by simp
    then obtain i where i: "i < length (take j (map node_id order))"
      and si: "take j (map node_id order) ! i = s" unfolding in_set_conv_nth by blast
    from i j len have ij: "i < j" and il: "i < length calls" and io: "i < length order" by auto
    from si ij io have sid: "node_id (order ! i) = s" by simp
    from ij j have "i + 1 < length calls \<or> err = None" by simp
    from s5 [OF il this] obtain h out where
      "registry (node_type (order ! i)) = Some h"
      "h (node_params (order ! i)) (snd (calls ! i)) = Inr out"
      "map_of R (node_id (order ! i)) = Some out" by blast
    with sid fst_calls [OF il] ij show ?thesis by auto
  qed
  with p show ?thesis by blast
qed

lemma topo_ordered_edge:
  assumes "topo_ordered edges xs" and "(s, t) \<in> edge_rel edges" and "t \<in> set xs"
  shows "\<exists>i j. i < j \<and> j < length xs \<and> xs ! i = s \<and> xs ! j = t"
proof -
  from assms(3) obtain j where j: "j < length xs" and t: "xs ! j = t"
    unfolding in_set_conv_nth by blast
  with assms(1,2) have "s \<in> set (take j xs)" unfolding topo_ordered_def by blast
  then obtain i where "i < length (take j xs)" and "take j xs ! i = s"
    unfolding in_set_conv_nth by blast
  with j t have "i < j \<and> j < length xs \<and> xs ! i = s \<and> xs ! j = t" by simp
  then show ?thesis by blast
qed

lemma merge_workflow_run:
  "run example_registry merge_workflow [] =
     (merge_calls, Inr [(''x'', PInt 1), (''y'', PInt 3), (''z'', PInt 4)])"
  by code_simp

lemma drop_workflow_run:
  "run drop_registry drop_workflow [(''x'', PInt 1)] = (drop_calls, Inr [(''x'', PInt 1)])"
  by code_simp

lemma run_loop_failure:
  "run_loop registry edges input_data ns results calls = (calls', R, Some e) \<Longrightarrow>
   \<exists>cs. calls' = calls @ cs \<and>
     ((\<exists>n \<in> set ns. registry (node_type n) = None \<and>
         e = KeyError (''Unknown node type: '' @ node_type n)) \<or>
      (cs \<noteq> [] \<and> fst (last cs) \<in> set ns \<and>
       (\<exists>h. registry (node_type (fst (last cs))) = Some h \<and>
            h (node_params (fst (last cs))) (snd (last cs)) = Inl e)))"
proof (induction ns arbitrary: results calls)
  case Nil
  then show ?case by simp
next
  case (Cons n ns)
  let ?pp = "resolve_input edges results input_data n"
  note run = Cons.prems [unfolded run_loop_step]
  show ?case
  proof (cases "registry (node_type n)")
    case None
    with run have "calls' = calls" "e = KeyError (''Unknown node type: '' @ node_type n)"
      by auto
    with None show ?thesis by auto
  next
    case (Some handler)
    note h = this
    show ?thesis
    proof (cases "handler (node_params n) ?pp")
      case (Inl e')
      with run h have "calls' = calls @ [(n, ?pp)]" "e' = e" by auto
      with h Inl show ?thesis by auto
    next
      case (Inr out)
      with run h have "run_loop registry edges input_data ns
          (AList.update (node_id n) out results) (calls @ [(n, ?pp)]) = (calls', R, Some e)"
        by simp
      from Cons.IH [OF this] obtain cs where c: "calls' = (calls @ [(n, ?pp)]) @ cs"
        and d: "(\<exists>n \<in> set ns. registry (node_type n) = None \<and>
                   e = KeyError (''Unknown node type: '' @ node_type n)) \<or>
                (cs \<noteq> [] \<and> fst (last cs) \<in> set ns \<and>
                 (\<exists>h. registry (node_type (fst (last cs))) = Some h \<and>
                      h (node_params (fst (last cs))) (snd (last cs)) = Inl e))"
        by blast
      from c have "calls' = calls @ ((n, ?pp) # cs)" by simp
      moreover from d have "(\<exists>m \<in> set (n # ns). registry (node_type m) = None \<and>
                   e = KeyError (''Unknown node type: '' @ node_type m)) \<or>
                ((n, ?pp) # cs \<noteq> [] \<and> fst (last ((n, ?pp) # cs)) \<in> set (n # ns) \<and>
                 (\<exists>h. registry (node_type (fst (last ((n, ?pp) # cs)))) = Some h \<and>
                      h (node_params (fst (last ((n, ?pp) # cs))))
                        (snd (last ((n, ?pp) # cs))) = Inl e))"
        by auto
      ultimately show ?thesis by blast
    qed
  qed
qed

lemma agent_workflow_run:
  "run agent_registry agent_workflow [(''message'', PStr ''P'')] = (agent_calls, Inr agent_out)"
  by code_simp

lemma acyclic_agent_workflow: "acyclic (edge_rel (wf_edges agent_workflow))"
proof (rule acyclicI_order [where f = "\<lambda>x. if x = ''a'' then 0 else (1::nat)"])
  fix a b assume "(a, b) \<in> edge_rel (wf_edges agent_workflow)"
  then show "(if b = ''a'' then 0 else (1::nat)) < (if a = ''a'' then 0 else 1)"
    by (auto simp: edge_rel_def agent_workflow_def example_workflow_def)
qed

text \<open>
  C1. Take a workflow with unique node ids whose edge map references only existing node ids
  and describes an acyclic graph, whose node types are all registered, and a run of it in
  which every handler invocation made returns a payload. Then \<open>run\<close> returns normally; the
  handlers it invoked are, in order, those of the computed topological order, which holds
  every node exactly once; for every edge the source's handler is invoked before the
  target's; and the value returned is the payload the last node's handler returned (the
  input payload when there is no node).
\<close>

theorem run_acyclic:
  assumes wf: "well_formed workflow"
    and valid: "edges_valid (wf_nodes workflow) (wf_edges workflow)"
    and ac: "acyclic (edge_rel (wf_edges workflow))"
    and reg: "\<forall>n \<in> set (wf_nodes workflow). registry (node_type n) \<noteq> None"
    and ret: "\<forall>(n, p) \<in> set (fst (run registry workflow input_data)).
                \<forall>h. registry (node_type n) = Some h \<longrightarrow> (\<exists>out. h (node_params n) p = Inr out)"
  shows "\<exists>order calls out.
           topological_sort (wf_nodes workflow) (wf_edges workflow) = Inr order \<and>
           run registry workflow input_data = (calls, Inr out) \<and>
           map fst calls = order \<and> distinct order \<and> set order = set (wf_nodes workflow) \<and>
           (\<forall>(s, t) \<in> edge_rel (wf_edges workflow).
              \<exists>i j. i < j \<and> j < length calls \<and>
                    node_id (fst (calls ! i)) = s \<and> node_id (fst (calls ! j)) = t) \<and>
           (if order = [] then out = input_data
            else \<exists>h. registry (node_type (last order)) = Some h \<and>
                     h (node_params (last order)) (snd (last calls)) = Inr out)"
proof -
  let ?nodes = "wf_nodes workflow" and ?edges = "wf_edges workflow"
  from wf have dk: "distinct (map fst ?edges)" and dn: "distinct (map node_id ?nodes)"
    unfolding well_formed_def by simp_all
  from topological_sort_acyclic [OF dk dn valid ac] obtain order where
    t: "topological_sort ?nodes ?edges = Inr order" and d: "distinct (map node_id order)"
    and so: "set order = set ?nodes" and to: "topo_ordered ?edges (map node_id order)"
    by blast
  obtain calls outcome where r: "run registry workflow input_data = (calls, outcome)"
    by (cases "run registry workflow input_data")
  from run_after_sort [OF dk dn t r] obtain R err where
    l: "run_loop registry ?edges input_data order [] [] = (calls, R, err)"
    and sp: "loop_spec registry ?edges input_data order [] calls R err"
    and oc: "outcome = (case err of Some e \<Rightarrow> Inl e
                      | None \<Rightarrow> if order = [] then Inr input_data
                                else (case map_of R (node_id (last order)) of
                                        None \<Rightarrow> Inl (KeyError (node_id (last order)))
                                      | Some out \<Rightarrow> Inr out))"
    by blast
  have err: "err = None"
  proof (rule ccontr)
    assume "err \<noteq> None"
    then obtain e where e: "err = Some e" by blast
    from run_loop_failure [OF l [unfolded e]]
    have "(\<exists>n \<in> set order. registry (node_type n) = None) \<or>
          (calls \<noteq> [] \<and> (\<exists>h. registry (node_type (fst (last calls))) = Some h \<and>
               h (node_params (fst (last calls))) (snd (last calls)) = Inl e))"
      by auto
    then show False
    proof
      assume "\<exists>n \<in> set order. registry (node_type n) = None"
      with reg so show False by auto
    next
      assume f: "calls \<noteq> [] \<and> (\<exists>h. registry (node_type (fst (last calls))) = Some h \<and>
               h (node_params (fst (last calls))) (snd (last calls)) = Inl e)"
      then obtain h where h: "registry (node_type (fst (last calls))) = Some h"
        and hl: "h (node_params (fst (last calls))) (snd (last calls)) = Inl e" by blast
      from f have "last calls \<in> set (fst (run registry workflow input_data))"
        using r by simp
      with ret have "\<forall>h. registry (node_type (fst (last calls))) = Some h \<longrightarrow>
          (\<exists>out. h (node_params (fst (last calls))) (snd (last calls)) = Inr out)"
        by (auto simp: case_prod_beta)
      with h hl show False by auto
    qed
  qed
  note s1 = loop_specD(1) [OF sp] and s2 = loop_specD(2) [OF sp]
    and s5 = loop_specD(5) [OF sp, rule_format]
  from s2 err have len: "length calls = length order" by simp
  with s1 have calls: "map fst calls = order" by simp
  have dist: "distinct order" using d by (simp add: distinct_map)
  have edges: "\<forall>(s, t) \<in> edge_rel ?edges.
              \<exists>i j. i < j \<and> j < length calls \<and>
                    node_id (fst (calls ! i)) = s \<and> node_id (fst (calls ! j)) = t"
  proof (clarify)
    fix s t assume e: "(s, t) \<in> edge_rel ?edges"
    from edge_rel_valid [OF valid e] so have "t \<in> set (map node_id order)" by simp
    from topo_ordered_edge [OF to e this] obtain i j where
      ij: "i < j" "j < length order" and si: "map node_id order ! i = s"
      and tj: "map node_id order ! j = t" by auto
    from ij si tj calls len
    have "i < j \<and> j < length calls \<and> node_id (fst (calls ! i)) = s \<and> node_id (fst (calls ! j)) = t"
      by (auto simp: nth_map [symmetric] simp del: nth_map)
    then show "\<exists>i j. i < j \<and> j < length calls \<and>
                    node_id (fst (calls ! i)) = s \<and> node_id (fst (calls ! j)) = t" by blast
  qed
  show ?thesis
  proof (cases "order = []")
    case True
    with oc err have "outcome = Inr input_data" by simp
    with t r calls dist so edges True show ?thesis by auto
  next
    case False
    then have i: "length calls - 1 < length calls" using len by simp
    from s5 [OF i] err obtain h out where
      h: "registry (node_type (order ! (length calls - 1))) = Some h"
      and o: "h (node_params (order ! (length calls - 1))) (snd (calls ! (length calls - 1))) = Inr out"
      and m: "map_of R (node_id (order ! (length calls - 1))) = Some out" by blast
    have lo: "order ! (length calls - 1) = last order" using False len by (simp add: last_conv_nth)
    have "calls \<noteq> []" using False len by auto
    then have lc: "calls ! (length calls - 1) = last calls" by (simp add: last_conv_nth)
    from oc err False m lo have "outcome = Inr out" by simp
    moreover have "\<exists>h. registry (node_type (last order)) = Some h \<and>
                     h (node_params (last order)) (snd (last calls)) = Inr out"
      using h o lo lc by auto
    ultimately show ?thesis using t r calls dist so edges False by auto
  qed
qed

theorem run_acyclic_witness:
  "well_formed agent_workflow \<and>
   edges_valid (wf_nodes agent_workflow) (wf_edges agent_workflow) \<and>
   acyclic (edge_rel (wf_edges agent_workflow)) \<and>
   run agent_registry agent_workflow [(''message'', PStr ''P'')] = (agent_calls, Inr agent_out) \<and>
   (\<exists>order calls out.
      topological_sort (wf_nodes agent_workflow) (wf_edges agent_workflow) = Inr order \<and>
      run agent_registry agent_workflow [(''message'', PStr ''P'')] = (calls, Inr out) \<and>
      map fst calls = order \<and> distinct order \<and> set order = set (wf_nodes agent_workflow) \<and>
      (\<forall>(s, t) \<in> edge_rel (wf_edges agent_workflow).
         \<exists>i j. i < j \<and> j < length calls \<and>
               node_id (fst (calls ! i)) = s \<and> node_id (fst (calls ! j)) = t) \<and>
      (if order = [] then out = [(''message'', PStr ''P'')]
       else \<exists>h. agent_registry (node_type (last order)) = Some h \<and>
                h (node_params (last order)) (snd (last calls)) = Inr out))"
proof -
  have h1: "well_formed agent_workflow"
    by (simp add: well_formed_def agent_workflow_def example_workflow_def agent_node_def
          trigger_node_def)
  have h2: "edges_valid (wf_nodes agent_workflow) (wf_edges agent_workflow)"
    by (simp add: edges_valid_iff agent_workflow_def example_workflow_def agent_node_def
          trigger_node_def)
  note h3 = acyclic_agent_workflow
  have h4: "\<forall>n \<in> set (wf_nodes agent_workflow). agent_registry (node_type n) \<noteq> None"
    by (simp add: agent_workflow_def example_workflow_def agent_node_def trigger_node_def
          agent_registry_def)
  have a: "snd (langgraph_agent_handler example_env [] [(''message'', PStr ''P'')]) = Inr agent_out"
    by code_simp
  have h5: "\<forall>(n, p) \<in> set (fst (run agent_registry agent_workflow [(''message'', PStr ''P'')])).
      \<forall>h. agent_registry (node_type n) = Some h \<longrightarrow> (\<exists>out. h (node_params n) p = Inr out)"
    unfolding agent_workflow_run
    by (simp add: agent_calls_def agent_node_def trigger_node_def agent_registry_def
          manual_trigger_handler_def a)
  from run_acyclic [OF h1 h2 h3 h4 h5] h1 h2 h3 agent_workflow_run show ?thesis by blast
qed

text \<open>
  C2, amended. In a run of a workflow with unique node ids, take any handler invocation,
  of node \<open>n\<close> with payload \<open>p\<close>. Every upstream id of \<open>n\<close> (edge-map order) belongs to a
  node whose handler was invoked earlier and returned a payload; call these \<open>outs\<close>. With no
  upstream id, \<open>p\<close> is the run's input payload. Otherwise \<open>p\<close> is the merge of \<open>outs\<close> in that
  order when this merge is not empty, and the run's input payload when it is empty. In the
  merge a field holds the value of the last upstream output that sets it.
\<close>

theorem run_input_resolution:
  assumes wf: "well_formed workflow"
    and r: "run registry workflow input_data = (calls, outcome)"
    and j: "j < length calls" and c: "calls ! j = (n, p)"
  shows "\<exists>outs. length outs = length (incoming n (wf_edges workflow)) \<and>
     (\<forall>k < length outs. \<exists>i < j. \<exists>h.
         node_id (fst (calls ! i)) = incoming n (wf_edges workflow) ! k \<and>
         registry (node_type (fst (calls ! i))) = Some h \<and>
         h (node_params (fst (calls ! i))) (snd (calls ! i)) = Inr (outs ! k)) \<and>
     (incoming n (wf_edges workflow) = [] \<longrightarrow> p = input_data) \<and>
     (incoming n (wf_edges workflow) \<noteq> [] \<longrightarrow>
        p = (if upstream_merge outs = [] then input_data else upstream_merge outs)) \<and>
     ((\<forall>out \<in> set outs. distinct (map fst out)) \<longrightarrow>
        (\<forall>k. map_of (upstream_merge outs) k = last_writer outs k))"
proof -
  let ?ups = "incoming n (wf_edges workflow)"
  from wf have dk: "distinct (map fst (wf_edges workflow))"
    and dn: "distinct (map node_id (wf_nodes workflow))"
    unfolding well_formed_def by simp_all
  from run_call_spec [OF dk dn r j c] obtain R where
    p: "p = resolve_input (wf_edges workflow) R input_data n"
    and u: "\<forall>s \<in> set ?ups. \<exists>i < j. \<exists>h out. node_id (fst (calls ! i)) = s \<and>
                 registry (node_type (fst (calls ! i))) = Some h \<and>
                 h (node_params (fst (calls ! i))) (snd (calls ! i)) = Inr out \<and>
                 map_of R s = Some out" by blast
  let ?outs = "map (results_get R) ?ups"
  have a: "length ?outs = length ?ups" by simp
  have b: "\<forall>k < length ?outs. \<exists>i < j. \<exists>h.
         node_id (fst (calls ! i)) = ?ups ! k \<and>
         registry (node_type (fst (calls ! i))) = Some h \<and>
         h (node_params (fst (calls ! i))) (snd (calls ! i)) = Inr (?outs ! k)"
  proof (intro allI impI)
    fix k assume k: "k < length ?outs"
    then have "?ups ! k \<in> set ?ups" by simp
    with u obtain i h out where "i < j" "node_id (fst (calls ! i)) = ?ups ! k"
      "registry (node_type (fst (calls ! i))) = Some h"
      "h (node_params (fst (calls ! i))) (snd (calls ! i)) = Inr out"
      "map_of R (?ups ! k) = Some out" by blast
    moreover from this k have "?outs ! k = out" by (simp add: results_get_def)
    ultimately show "\<exists>i < j. \<exists>h.
         node_id (fst (calls ! i)) = ?ups ! k \<and>
         registry (node_type (fst (calls ! i))) = Some h \<and>
         h (node_params (fst (calls ! i))) (snd (calls ! i)) = Inr (?outs ! k)" by blast
  qed
  have m: "p = (if upstream_merge ?outs = [] then input_data else upstream_merge ?outs)"
    using p by (simp add: resolve_input_def merge_parent_payloads_eq)
  have e: "?ups = [] \<longrightarrow> p = input_data" using m by (simp add: upstream_merge_def)
  have f: "(\<forall>out \<in> set ?outs. distinct (map fst out)) \<longrightarrow>
        (\<forall>k. map_of (upstream_merge ?outs) k = last_writer ?outs k)"
    using upstream_merge_field by blast
  from a b e m f show ?thesis by blast
qed

theorem run_input_resolution_witness:
  "well_formed merge_workflow \<and>
   run example_registry merge_workflow [] =
     (merge_calls, Inr [(''x'', PInt 1), (''y'', PInt 3), (''z'', PInt 4)]) \<and>
   2 < length merge_calls \<and>
   merge_calls ! 2 = (trigger_node ''C'', [(''x'', PInt 1), (''y'', PInt 3), (''z'', PInt 4)]) \<and>
   (\<exists>outs. length outs = length (incoming (trigger_node ''C'') (wf_edges merge_workflow)) \<and>
     (\<forall>k < length outs. \<exists>i < 2. \<exists>h.
         node_id (fst (merge_calls ! i)) = incoming (trigger_node ''C'') (wf_edges merge_workflow) ! k \<and>
         example_registry (node_type (fst (merge_calls ! i))) = Some h \<and>
         h (node_params (fst (merge_calls ! i))) (snd (merge_calls ! i)) = Inr (outs ! k)) \<and>
     (incoming (trigger_node ''C'') (wf_edges merge_workflow) = [] \<longrightarrow>
        [(''x'', PInt 1), (''y'', PInt 3), (''z'', PInt 4)] = []) \<and>
     (incoming (trigger_node ''C'') (wf_edges merge_workflow) \<noteq> [] \<longrightarrow>
        [(''x'', PInt 1), (''y'', PInt 3), (''z'', PInt 4)] =
          (if upstream_merge outs = [] then [] else upstream_merge outs)) \<and>
     ((\<forall>out \<in> set outs. distinct (map fst out)) \<longrightarrow>
        (\<forall>k. map_of (upstream_merge outs) k = last_writer outs k)))"
proof -
  have h1: "well_formed merge_workflow"
    by (simp add: well_formed_def merge_workflow_def example_workflow_def fields_node_def
          trigger_node_def)
  note h2 = merge_workflow_run
  have h3: "2 < length merge_calls" by (simp add: merge_calls_def)
  have h4: "merge_calls ! 2 =
      (trigger_node ''C'', [(''x'', PInt 1), (''y'', PInt 3), (''z'', PInt 4)])"
    by (simp add: merge_calls_def)
  from run_input_resolution [OF h1 h2 h3 h4] h1 h2 h3 h4 show ?thesis by blast
qed

text \<open>
  C2 as stated fails: node \<open>b\<close> has the upstream node \<open>a\<close>, whose handler returned the
  empty mapping, so the merge of the upstream outputs is empty; the handler of \<open>b\<close> received
  the run's input payload \<open>{x: 1}\<close> instead.
\<close>

theorem run_input_resolution_counterexample:
  "run drop_registry drop_workflow [(''x'', PInt 1)] = (drop_calls, Inr [(''x'', PInt 1)]) \<and>
   drop_calls ! 0 = (\<lparr>node_id = ''a'', node_type = ''drop'', node_params = []\<rparr>, [(''x'', PInt 1)]) \<and>
   empty_output_handler [] [(''x'', PInt 1)] = Inr [] \<and>
   incoming (trigger_node ''b'') (wf_edges drop_workflow) = [''a''] \<and>
   drop_calls ! 1 = (trigger_node ''b'', [(''x'', PInt 1)]) \<and>
   upstream_merge [[]] \<noteq> [(''x'', PInt 1)]"
proof -
  have "incoming (trigger_node ''b'') (wf_edges drop_workflow) = [''a'']"
    by (simp add: incoming_def drop_workflow_def example_workflow_def trigger_node_def)
  moreover have "upstream_merge [[]] \<noteq> [(''x'', PInt 1)]"
    by (simp add: upstream_merge_def dict_update_def)
  ultimately show ?thesis
    using drop_workflow_run by (simp add: drop_calls_def empty_output_handler_def)
qed

text \<open>
  C9. In a run of a workflow with unique node ids, when a node has upstream ids and every
  upstream handler invocation returned the empty mapping, the node's handler receives the
  run's input payload.
\<close>

theorem run_empty_upstream_outputs:
  assumes wf: "well_formed workflow"
    and r: "run registry workflow input_data = (calls, outcome)"
    and j: "j < length calls" and c: "calls ! j = (n, p)"
    and ups: "incoming n (wf_edges workflow) \<noteq> []"
    and empty: "\<forall>i < j. node_id (fst (calls ! i)) \<in> set (incoming n (wf_edges workflow)) \<longrightarrow>
                  (\<exists>h. registry (node_type (fst (calls ! i))) = Some h \<and>
                       h (node_params (fst (calls ! i))) (snd (calls ! i)) = Inr [])"
  shows "p = input_data"
proof -
  let ?ups = "incoming n (wf_edges workflow)"
  from wf have dk: "distinct (map fst (wf_edges workflow))"
    and dn: "distinct (map node_id (wf_nodes workflow))"
    unfolding well_formed_def by simp_all
  from run_call_spec [OF dk dn r j c] obtain R where
    p: "p = resolve_input (wf_edges workflow) R input_data n"
    and u: "\<forall>s \<in> set ?ups. \<exists>i < j. \<exists>h out. node_id (fst (calls ! i)) = s \<and>
                 registry (node_type (fst (calls ! i))) = Some h \<and>
                 h (node_params (fst (calls ! i))) (snd (calls ! i)) = Inr out \<and>
                 map_of R s = Some out" by blast
  have "results_get R s = []" if s: "s \<in> set ?ups" for s
  proof -
    from u s obtain i h out where i: "i < j" and id: "node_id (fst (calls ! i)) = s"
      and h: "registry (node_type (fst (calls ! i))) = Some h"
      and o: "h (node_params (fst (calls ! i))) (snd (calls ! i)) = Inr out"
      and m: "map_of R s = Some out" by blast
    from empty i id s obtain h' where "registry (node_type (fst (calls ! i))) = Some h'"
      and "h' (node_params (fst (calls ! i))) (snd (calls ! i)) = Inr []" by blast
    with h o have "out = []" by simp
    with m show ?thesis by (simp add: results_get_def)
  qed
  then have "upstream_merge (map (results_get R) ?ups) = []"
    by (intro upstream_merge_empty) simp
  with p show ?thesis by (simp add: resolve_input_def merge_parent_payloads_eq)
qed

theorem run_empty_upstream_outputs_witness:
  "well_formed drop_workflow \<and>
   run drop_registry drop_workflow [(''x'', PInt 1)] = (drop_calls, Inr [(''x'', PInt 1)]) \<and>
   1 < length drop_calls \<and>
   incoming (fst (drop_calls ! 1)) (wf_edges drop_workflow) \<noteq> [] \<and>
   drop_registry (node_type (fst (drop_calls ! 0))) = Some empty_output_handler \<and>
   empty_output_handler (node_params (fst (drop_calls ! 0))) (snd (drop_calls ! 0)) = Inr [] \<and>
   snd (drop_calls ! 1) = [(''x'', PInt 1)]"
proof -
  have h1: "well_formed drop_workflow"
    by (simp add: well_formed_def drop_workflow_def example_workflow_def trigger_node_def)
  note h2 = drop_workflow_run
  have h3: "1 < length drop_calls" by (simp add: drop_calls_def)
  have h4: "drop_calls ! 1 = (fst (drop_calls ! 1), snd (drop_calls ! 1))" by simp
  have h5: "incoming (fst (drop_calls ! 1)) (wf_edges drop_workflow) \<noteq> []"
    by (simp add: incoming_def drop_calls_def drop_workflow_def example_workflow_def
          trigger_node_def)
  have h6: "\<forall>i < 1. node_id (fst (drop_calls ! i)) \<in>
        set (incoming (fst (drop_calls ! 1)) (wf_edges drop_workflow)) \<longrightarrow>
      (\<exists>h. drop_registry (node_type (fst (drop_calls ! i))) = Some h \<and>
           h (node_params (fst (drop_calls ! i))) (snd (drop_calls ! i)) = Inr [])"
    by (simp add: drop_calls_def drop_registry_def empty_output_handler_def)
  have h7: "drop_registry (node_type (fst (drop_calls ! 0))) = Some empty_output_handler"
    "empty_output_handler (node_params (fst (drop_calls ! 0))) (snd (drop_calls ! 0)) = Inr []"
    by (simp_all add: drop_calls_def drop_registry_def empty_output_handler_def)
  from run_empty_upstream_outputs [OF h1 h2 h3 h4 h5 h6] h1 h2 h3 h5 h7 show ?thesis by blast
qed

section \<open>The agent handler\<close>

text \<open>The limit of \<open>str\<close> on integers, as a bound on the value.\<close>

lemma decimal_nonempty: "decimal n \<noteq> []"
  by (subst decimal.simps) simp

lemma length_decimal: "0 < k \<Longrightarrow> length (decimal n) \<le> k \<longleftrightarrow> n < 10 ^ k"
proof (induction n arbitrary: k rule: decimal.induct)
  case (1 n)
  show ?case
  proof (cases "n div 10 = 0")
    case True
    then have "n < 10" by (simp add: div_eq_0_iff)
    moreover have "(10::nat) \<le> 10 ^ k" using 1(2) by (cases k) simp_all
    moreover have "length (decimal n) = 1" using True by (subst decimal.simps) simp
    ultimately show ?thesis using 1(2) by simp
  next
    case False
    then have n: "10 \<le> n" by (simp add: div_eq_0_iff)
    have l: "length (decimal n) = length (decimal (n div 10)) + 1"
      using False by (subst decimal.simps) simp
    show ?thesis
    proof (cases k)
      case 0
      with 1(2) show ?thesis by simp
    next
      case (Suc j)
      show ?thesis
      proof (cases j)
        case 0
        have "0 < length (decimal (n div 10))" using decimal_nonempty by simp
        with l Suc 0 n show ?thesis by simp
      next
        case (Suc i)
        then have "0 < j" by simp
        from 1(1) [OF False this]
        have "length (decimal (n div 10)) \<le> j \<longleftrightarrow> n div 10 < 10 ^ j" .
        moreover have "n div 10 < 10 ^ j \<longleftrightarrow> n < 10 ^ j * 10"
          by (simp add: div_less_iff_less_mult)
        ultimately show ?thesis using l \<open>k = Suc j\<close> by (simp add: mult.commute)
      qed
    qed
  qed
qed

lemma length_decimal_int:
  "0 < k \<Longrightarrow> k < length (decimal (nat \<bar>i\<bar>)) \<longleftrightarrow> 10 ^ k \<le> \<bar>i\<bar>"
proof -
  assume k: "0 < k"
  have "length (decimal (nat \<bar>i\<bar>)) \<le> k \<longleftrightarrow> nat \<bar>i\<bar> < 10 ^ k"
    using k by (rule length_decimal)
  also have "\<dots> \<longleftrightarrow> \<bar>i\<bar> < 10 ^ k"
    by (metis abs_ge_zero nat_less_iff of_nat_numeral of_nat_power)
  finally show ?thesis by auto
qed

lemma int_str_limit:
  "10 ^ 4300 \<le> \<bar>i\<bar> \<Longrightarrow> int_str i = Inl digits_limit"
  "\<not> 10 ^ 4300 \<le> \<bar>i\<bar> \<Longrightarrow>
     int_str i = Inr (if 0 \<le> i then decimal (nat \<bar>i\<bar>) else CHR ''-'' # decimal (nat \<bar>i\<bar>))"
proof -
  have p: "(0::nat) < 4300" by simp
  note g = length_decimal_int [OF p, of i]
  show "10 ^ 4300 \<le> \<bar>i\<bar> \<Longrightarrow> int_str i = Inl digits_limit"
    unfolding int_str_def Let_def g [symmetric] by (simp only: if_True)
  show "\<not> 10 ^ 4300 \<le> \<bar>i\<bar> \<Longrightarrow>
     int_str i = Inr (if 0 \<le> i then decimal (nat \<bar>i\<bar>) else CHR ''-'' # decimal (nat \<bar>i\<bar>))"
    unfolding int_str_def Let_def g [symmetric] by (simp only: if_False)
qed

lemma map_filter_part_text: "List.map_filter part_text parts = text_fields parts"
proof (induction parts)
  case Nil
  then show ?case by (simp add: List.map_filter_simps)
next
  case (Cons part parts)
  then have "List.map_filter part_text (part # parts) =
      (case part_text part of None \<Rightarrow> text_fields parts | Some t \<Rightarrow> t # text_fields parts)"
    by (simp add: List.map_filter_simps split: option.splits)
  also have "\<dots> = text_fields (part # parts)"
    by (cases part) (auto simp: part_text_def dict_get_def split: option.splits pyval.splits)
  finally show ?case .
qed

text \<open>
  C7, amended. When the result holds a non-empty list of messages, the extraction looks at
  the last one. If it is an object whose content is plain text, that text is returned
  verbatim. If its content is a list of parts, the texts of the parts that are mappings
  with a string-valued text field are returned, joined by newlines, provided there is at
  least one; other parts are skipped. In every other case with a last message the
  extraction returns the stringified last message (\<open>s\<close> for the object \<open>PObj s r attrs\<close>).
  Only when the result has no message list, or an empty one, does it return the
  stringified result.
\<close>

theorem extract_text_cases:
  "(\<forall>messages s r attrs.
      map_of result ''messages'' = Some (PList messages) \<and> messages \<noteq> [] \<and>
      last messages = PObj s r attrs \<longrightarrow>
      (\<forall>t. map_of attrs ''content'' = Some (PStr t) \<longrightarrow>
           extract_text_from_agent_result fr result = Inr t) \<and>
      (\<forall>parts. map_of attrs ''content'' = Some (PList parts) \<longrightarrow>
           extract_text_from_agent_result fr result =
             (if text_fields parts = [] then Inr s
              else Inr (join [CHR 0x0A] (text_fields parts)))) \<and>
      ((\<forall>t. map_of attrs ''content'' \<noteq> Some (PStr t)) \<and>
       (\<forall>parts. map_of attrs ''content'' \<noteq> Some (PList parts)) \<longrightarrow>
           extract_text_from_agent_result fr result = Inr s)) \<and>
   (\<forall>messages.
      map_of result ''messages'' = Some (PList messages) \<and> messages \<noteq> [] \<and>
      (\<forall>s r attrs. last messages \<noteq> PObj s r attrs) \<longrightarrow>
      extract_text_from_agent_result fr result = py_str fr (last messages)) \<and>
   ((\<forall>messages. map_of result ''messages'' = Some (PList messages) \<longrightarrow> messages = []) \<longrightarrow>
      extract_text_from_agent_result fr result = py_str fr (PDict result))"
proof (intro conjI allI impI)
  fix messages s r attrs t
  assume "map_of result ''messages'' = Some (PList messages) \<and> messages \<noteq> [] \<and>
      last messages = PObj s r attrs" and "map_of attrs ''content'' = Some (PStr t)"
  then show "extract_text_from_agent_result fr result = Inr t"
    by (simp add: extract_text_from_agent_result_def dict_get_def getattr_content_def)
next
  fix messages s r attrs parts
  assume "map_of result ''messages'' = Some (PList messages) \<and> messages \<noteq> [] \<and>
      last messages = PObj s r attrs" and "map_of attrs ''content'' = Some (PList parts)"
  then show "extract_text_from_agent_result fr result =
      (if text_fields parts = [] then Inr s else Inr (join [CHR 0x0A] (text_fields parts)))"
    by (simp add: extract_text_from_agent_result_def dict_get_def getattr_content_def
          map_filter_part_text py_str_def)
next
  fix messages s r attrs
  assume m: "map_of result ''messages'' = Some (PList messages) \<and> messages \<noteq> [] \<and>
      last messages = PObj s r attrs"
    and c: "(\<forall>t. map_of attrs ''content'' \<noteq> Some (PStr t)) \<and>
       (\<forall>parts. map_of attrs ''content'' \<noteq> Some (PList parts))"
  from c have "case getattr_content (PObj s r attrs) of PStr t \<Rightarrow> False | PList parts \<Rightarrow> False
      | _ \<Rightarrow> True"
    by (auto simp: getattr_content_def dict_get_def split: option.splits pyval.splits)
  with m show "extract_text_from_agent_result fr result = Inr s"
    by (auto simp: extract_text_from_agent_result_def dict_get_def py_str_def
          split: pyval.splits)
next
  fix messages
  assume "map_of result ''messages'' = Some (PList messages) \<and> messages \<noteq> [] \<and>
      (\<forall>s r attrs. last messages \<noteq> PObj s r attrs)"
  then show "extract_text_from_agent_result fr result = py_str fr (last messages)"
    by (cases "last messages")
       (simp_all add: extract_text_from_agent_result_def dict_get_def getattr_content_def)
next
  assume "\<forall>messages. map_of result ''messages'' = Some (PList messages) \<longrightarrow> messages = []"
  then show "extract_text_from_agent_result fr result = py_str fr (PDict result)"
    by (auto simp: extract_text_from_agent_result_def dict_get_def
          split: option.splits pyval.splits)
qed

theorem extract_text_cases_witness:
  "extract_text_from_agent_result (\<lambda>w. ''0.0'') text_result = Inr ''hello'' \<and>
   extract_text_from_agent_result (\<lambda>w. ''0.0'') parts_result = Inr (''a'' @ [CHR 0x0A] @ ''b'') \<and>
   extract_text_from_agent_result (\<lambda>w. ''0.0'') [(''messages'', PList [PInt 7])] = Inr ''7'' \<and>
   extract_text_from_agent_result (\<lambda>w. ''0.0'') [(''messages'', PList [])] =
     Inr (''{'' @ [CHR 0x27] @ ''messages'' @ [CHR 0x27] @ '': []}'')"
proof -
  have t: "text_fields [PDict [(''type'', PStr ''text''), (''text'', PStr ''a'')],
                        PDict [(''type'', PStr ''image'')], PDict [(''text'', PInt 5)],
                        PStr ''raw'', PDict [(''text'', PStr ''b'')]] = [''a'', ''b'']"
    by simp
  have s7: "py_str (\<lambda>w. ''0.0'') (PInt 7) = Inr ''7''" by code_simp
  have se: "py_str (\<lambda>w. ''0.0'') (PDict [(''messages'', PList [])]) =
      Inr (''{'' @ [CHR 0x27] @ ''messages'' @ [CHR 0x27] @ '': []}'')" by code_simp
  have a: "extract_text_from_agent_result (\<lambda>w. ''0.0'') text_result = Inr ''hello''"
    using extract_text_cases [of text_result "\<lambda>w. ''0.0''"]
    by (simp add: text_result_def message_def)
  have b: "extract_text_from_agent_result (\<lambda>w. ''0.0'') parts_result =
      Inr (''a'' @ [CHR 0x0A] @ ''b'')"
    using extract_text_cases [of parts_result "\<lambda>w. ''0.0''"]
    by (simp add: parts_result_def message_def t join_def)
  have c: "extract_text_from_agent_result (\<lambda>w. ''0.0'') [(''messages'', PList [PInt 7])] =
      Inr ''7''"
    using extract_text_cases [of "[(''messages'', PList [PInt 7])]" "\<lambda>w. ''0.0''"]
    by (simp add: s7)
  have d: "extract_text_from_agent_result (\<lambda>w. ''0.0'') [(''messages'', PList [])] =
      Inr (''{'' @ [CHR 0x27] @ ''messages'' @ [CHR 0x27] @ '': []}'')"
    using extract_text_cases [of "[(''messages'', PList [])]" "\<lambda>w. ''0.0''"]
    by (simp add: se)
  from a b c d show ?thesis by simp
qed

text \<open>
  C7 as stated fails: when the last message's content is neither text nor a list with a
  text part, the extraction returns the stringified last message (here \<open>msg\<close>), not the
  stringified result, and not the empty join of the parts either.
\<close>

theorem extract_text_counterexample:
  "extract_text_from_agent_result (\<lambda>w. ''0.0'') unreadable_result = Inr ''msg'' \<and>
   py_str (\<lambda>w. ''0.0'') (PDict unreadable_result) =
     Inr (''{'' @ [CHR 0x27] @ ''messages'' @ [CHR 0x27] @ '': [Message()]}'') \<and>
   extract_text_from_agent_result (\<lambda>w. ''0.0'') textless_result = Inr ''msg'' \<and>
   join [CHR 0x0A] (text_fields [PDict [(''type'', PStr ''image'')]]) = ''''"
  by code_simp


lemma map_of_merge_output:
  "map_of (merge_output cfg payload output_text trace) =
     (if trace \<noteq> []
      then (map_of payload)
             (''agent_output'' \<mapsto> PStr output_text, ''agent_model'' \<mapsto> PStr (ac_model cfg),
              ''agent_num_ctx'' \<mapsto> ac_num_ctx cfg, ''agent_num_predict'' \<mapsto> ac_num_predict cfg,
              ''agent_tools'' \<mapsto> PList (map PStr (ac_tools cfg)),
              ''agent_trace'' \<mapsto> PList trace, ''agent_count'' \<mapsto> PInt (int (length trace)))
      else (map_of payload)
             (''agent_output'' \<mapsto> PStr output_text, ''agent_model'' \<mapsto> PStr (ac_model cfg),
              ''agent_num_ctx'' \<mapsto> ac_num_ctx cfg, ''agent_num_predict'' \<mapsto> ac_num_predict cfg,
              ''agent_tools'' \<mapsto> PList (map PStr (ac_tools cfg))))"
  by (simp only: merge_output_def Let_def update_conv' if_distrib [of map_of] cong: if_cong)

lemma handler_unfold:
  assumes "resolve_config env params = Inr cfg"
    and "dict_get payload (ac_input_field cfg) PNone = prompt_value" and "prompt_value \<noteq> PNone"
    and "py_str (env_float_repr env) prompt_value = Inr original"
    and "execute_agents env cfg original = (cs, r)"
  shows "langgraph_agent_handler env params payload =
           (cs, case r of
                  Inl e \<Rightarrow> Inl (case e of ImportError m \<Rightarrow> missing_dependencies | _ \<Rightarrow> e)
                | Inr (output_text, trace) \<Rightarrow> Inr (merge_output cfg payload output_text trace))"
proof -
  have "langgraph_agent_handler env params payload =
        (case r of Inl (ImportError m) \<Rightarrow> (cs, Inl missing_dependencies)
                 | Inl e \<Rightarrow> (cs, Inl e)
                 | Inr (output_text, trace) \<Rightarrow>
                     (cs, Inr (merge_output cfg payload output_text trace)))"
    using assms by (cases prompt_value) (simp_all add: langgraph_agent_handler_def)
  then show ?thesis by (simp split: sum.splits error.splits prod.splits)
qed

text \<open>
  \<open>str(prompt_value)\<close> stands before the \<open>try\<close>: when it raises, the handler raises the
  same exception and no model has been invoked.
\<close>

lemma handler_prompt_unprintable:
  assumes "resolve_config env params = Inr cfg"
    and "dict_get payload (ac_input_field cfg) PNone = prompt_value"
    and "py_str (env_float_repr env) prompt_value = Inl e"
  shows "langgraph_agent_handler env params payload = ([], Inl e)"
proof -
  from assms(3) have "prompt_value \<noteq> PNone" by (auto simp: py_str_def)
  with assms show ?thesis by (cases prompt_value) (simp_all add: langgraph_agent_handler_def)
qed

lemma handler_prompt_digits_limit:
  assumes "resolve_config env params = Inr cfg"
    and "map_of payload (ac_input_field cfg) = Some (PInt i)" and "10 ^ 4300 \<le> \<bar>i\<bar>"
  shows "langgraph_agent_handler env params payload = ([], Inl digits_limit)"
proof -
  have d: "dict_get payload (ac_input_field cfg) PNone = PInt i"
    using assms(2) by (simp only: dict_get_def option.case)
  have "py_str (env_float_repr env) (PInt i) = int_str i"
    by (simp only: py_str_def pyval.case py_repr.simps)
  then have "py_str (env_float_repr env) (PInt i) = Inl digits_limit"
    using int_str_limit(1) [OF assms(3)] by (simp only:)
  from handler_prompt_unprintable [OF assms(1) d this] show ?thesis .
qed

lemma resolve_example_config: "resolve_config example_env [] = Inr example_config"
  by code_simp

text \<open>
  C10. When the configuration is valid and the payload binds the configured input field to
  \<open>None\<close>, the handler raises the missing-input-field \<open>ValueError\<close> naming the field, with no
  model invocation, exactly as on the payload without that field.
\<close>

theorem null_input_field:
  assumes "resolve_config env params = Inr cfg"
    and "map_of payload (ac_input_field cfg) = Some PNone"
  shows "langgraph_agent_handler env params payload =
           ([], Inl (ValueError (''langgraph_agent expected input field '' @ [CHR 0x27] @
                                 ac_input_field cfg @ [CHR 0x27] @ '' in payload''))) \<and>
         langgraph_agent_handler env params payload =
           langgraph_agent_handler env params (AList.delete (ac_input_field cfg) payload)"
  using assms
  by (simp add: langgraph_agent_handler_def dict_get_def delete_conv' missing_input_field_def)

theorem null_input_field_witness:
  "resolve_config example_env [] = Inr example_config \<and>
   map_of [(''message'', PNone), (''x'', PInt 1)] (ac_input_field example_config) = Some PNone \<and>
   langgraph_agent_handler example_env [] [(''message'', PNone), (''x'', PInt 1)] =
     ([], Inl (ValueError (''langgraph_agent expected input field '' @ [CHR 0x27] @
                           ''message'' @ [CHR 0x27] @ '' in payload''))) \<and>
   langgraph_agent_handler example_env [] [(''message'', PNone), (''x'', PInt 1)] =
     langgraph_agent_handler example_env [] [(''x'', PInt 1)]"
proof -
  note h1 = resolve_example_config
  have h2: "map_of [(''message'', PNone), (''x'', PInt 1)] (ac_input_field example_config) =
      Some PNone" by (simp add: example_config_def)
  have f: "ac_input_field example_config = ''message''" by (simp add: example_config_def)
  have d: "AList.delete ''message'' [(''message'', PNone), (''x'', PInt 1)] = [(''x'', PInt 1)]"
    by simp
  from null_input_field [OF h1 h2, unfolded f d] h1 h2 show ?thesis by blast
qed

lemma length_contexts: "length (contexts ctx outs) = length outs + 1"
  by (induction outs arbitrary: ctx) simp_all

lemma contexts_0: "contexts ctx outs ! 0 = ctx"
  by (cases outs) simp_all

lemma contexts_Suc:
  "i < length outs \<Longrightarrow>
     contexts ctx outs ! Suc i = (if strip (outs ! i) = [] then contexts ctx outs ! i else outs ! i)"
proof (induction outs arbitrary: ctx i)
  case Nil
  then show ?case by simp
next
  case (Cons out outs)
  show ?case
  proof (cases i)
    case 0
    then show ?thesis by (simp add: contexts_0)
  next
    case (Suc k)
    with Cons.prems have "k < length outs" by simp
    from Cons.IH [OF this] show ?thesis using Suc by simp
  qed
qed

lemma run_single_agent_call:
  "call_model (fst (run_single_agent env model sp up tools nc np t mtc)) = model"
  "call_user_prompt (fst (run_single_agent env model sp up tools nc np t mtc)) = up"
  "snd (run_single_agent env model sp up tools nc np t mtc) =
     (case env_invoke env (fst (run_single_agent env model sp up tools nc np t mtc)) of
        Inl e \<Rightarrow> Inl e
      | Inr result \<Rightarrow> extract_text_from_agent_result (env_float_repr env) result)"
  by (simp_all add: run_single_agent_def Let_def)

lemma run_single_agent_Inr:
  assumes "snd (run_single_agent env model sp up tools nc np t mtc) = Inr out"
  shows "\<exists>result. env_invoke env (fst (run_single_agent env model sp up tools nc np t mtc)) =
           Inr result \<and>
         extract_text_from_agent_result (env_float_repr env) result = Inr out"
  using assms unfolding run_single_agent_call(3) by (auto split: sum.splits)

lemma run_single_agent_Inl:
  assumes "snd (run_single_agent env model sp up tools nc np t mtc) = Inl e"
  shows "case env_invoke env (fst (run_single_agent env model sp up tools nc np t mtc)) of
           Inl e' \<Rightarrow> e' = e
         | Inr result \<Rightarrow> extract_text_from_agent_result (env_float_repr env) result = Inl e"
  using assms unfolding run_single_agent_call(3) by (auto split: sum.splits)

lemma run_chain_step:
  "run_chain env cfg original_input idx (a # agent_chain) running_context trace calls =
     (case snd (run_single_agent env (cfg_model a) (cfg_system_prompt a)
                  (if idx = 0 then running_context
                   else chain_prompt original_input running_context)
                  (cfg_tools a) (ac_num_ctx cfg) (ac_num_predict cfg) (ac_temperature cfg)
                  (ac_max_tool_calls cfg)) of
        Inl e \<Rightarrow>
          (calls @ [fst (run_single_agent env (cfg_model a) (cfg_system_prompt a)
                  (if idx = 0 then running_context
                   else chain_prompt original_input running_context)
                  (cfg_tools a) (ac_num_ctx cfg) (ac_num_predict cfg) (ac_temperature cfg)
                  (ac_max_tool_calls cfg))], Inl e)
      | Inr output_text \<Rightarrow>
          run_chain env cfg original_input (idx + 1) agent_chain
            (if strip output_text \<noteq> [] then output_text else running_context)
            (trace @ [trace_entry a output_text])
            (calls @ [fst (run_single_agent env (cfg_model a) (cfg_system_prompt a)
                  (if idx = 0 then running_context
                   else chain_prompt original_input running_context)
                  (cfg_tools a) (ac_num_ctx cfg) (ac_num_predict cfg) (ac_temperature cfg)
                  (ac_max_tool_calls cfg))]))"
  by (simp add: Let_def split: prod.splits sum.splits split del: if_split)

lemma run_chain_spec:
  "run_chain env cfg original_input idx agent_chain running_context trace calls = (calls', r) \<Longrightarrow>
     \<exists>cs outs. calls' = calls @ cs \<and>
        chain_spec env original_input idx agent_chain running_context trace cs outs r"
proof (induction agent_chain arbitrary: idx running_context trace calls)
  case Nil
  then show ?case by (auto simp: chain_spec_def)
next
  case (Cons a agent_chain)
  let ?step_input = "if idx = 0 then running_context
                     else chain_prompt original_input running_context"
  let ?rs = "run_single_agent env (cfg_model a) (cfg_system_prompt a) ?step_input (cfg_tools a)
               (ac_num_ctx cfg) (ac_num_predict cfg) (ac_temperature cfg) (ac_max_tool_calls cfg)"
  let ?call = "fst ?rs"
  have cm: "call_model ?call = cfg_model a" and cu: "call_user_prompt ?call = ?step_input"
    by (rule run_single_agent_call)+
  show ?case
  proof (cases "snd ?rs")
    case (Inl e)
    note s = this
    from Cons.prems have "(calls @ [?call], Inl e) = (calls', r)"
      unfolding run_chain_step s by (simp only: sum.case)
    then have c: "calls' = calls @ [?call]" and r: "r = Inl e" by simp_all
    have "chain_spec env original_input idx (a # agent_chain) running_context trace [?call] [] r"
      unfolding chain_spec_def using r run_single_agent_Inl [OF s] cm cu by simp
    with c show ?thesis by blast
  next
    case (Inr out)
    note s = this
    let ?rc = "if strip out \<noteq> [] then out else running_context"
    from run_single_agent_Inr [OF s] obtain result where
      inv: "env_invoke env ?call = Inr result"
      and ext: "extract_text_from_agent_result (env_float_repr env) result = Inr out" by blast
    from Cons.prems have "run_chain env cfg original_input (idx + 1) agent_chain ?rc
        (trace @ [trace_entry a out]) (calls @ [?call]) = (calls', r)"
      unfolding run_chain_step s by (simp only: sum.case)
    from Cons.IH [OF this] obtain cs outs where
      c: "calls' = (calls @ [?call]) @ cs"
      and sp: "chain_spec env original_input (idx + 1) agent_chain ?rc
                 (trace @ [trace_entry a out]) cs outs r" by blast
    note sp' = sp [unfolded chain_spec_def]
    from sp' have l1: "length outs \<le> length cs" and l2: "length cs \<le> length agent_chain"
      by simp_all
    from sp' have p: "\<And>i. i < length cs \<Longrightarrow> i \<le> length outs \<and>
        call_model (cs ! i) = cfg_model (agent_chain ! i) \<and>
        call_user_prompt (cs ! i) = chain_prompt original_input (contexts ?rc outs ! i)"
      by simp
    from sp' have q: "\<And>i. i < length outs \<Longrightarrow> \<exists>result. env_invoke env (cs ! i) = Inr result \<and>
        extract_text_from_agent_result (env_float_repr env) result = Inr (outs ! i)"
      by blast
    from sp' have f: "(case r of
        Inr (final, trace') \<Rightarrow>
          length outs = length agent_chain \<and> final = last (contexts ?rc outs) \<and>
          trace' = (trace @ [trace_entry a out]) @ map2 trace_entry agent_chain outs
      | Inl e \<Rightarrow>
          length cs = length outs + 1 \<and>
          (case env_invoke env (last cs) of
             Inl e' \<Rightarrow> e' = e
           | Inr result \<Rightarrow>
               extract_text_from_agent_result (env_float_repr env) result = Inl e))"
      by blast
    have ctx: "contexts running_context (out # outs) = running_context # contexts ?rc outs"
      by simp
    have t1: "length (out # outs) \<le> length (?call # cs)"
      and t2: "length (?call # cs) \<le> length (a # agent_chain)"
      using l1 l2 by simp_all
    have t3: "\<forall>i < length (?call # cs). i \<le> length (out # outs) \<and>
        call_model ((?call # cs) ! i) = cfg_model ((a # agent_chain) ! i) \<and>
        call_user_prompt ((?call # cs) ! i) =
          (if idx + i = 0 then contexts running_context (out # outs) ! i
           else chain_prompt original_input (contexts running_context (out # outs) ! i))"
    proof (intro allI impI)
      fix i assume i: "i < length (?call # cs)"
      show "i \<le> length (out # outs) \<and>
        call_model ((?call # cs) ! i) = cfg_model ((a # agent_chain) ! i) \<and>
        call_user_prompt ((?call # cs) ! i) =
          (if idx + i = 0 then contexts running_context (out # outs) ! i
           else chain_prompt original_input (contexts running_context (out # outs) ! i))"
      proof (cases i)
        case 0
        then show ?thesis unfolding ctx using cm cu by simp
      next
        case (Suc k)
        with i have "k < length cs" by simp
        from p [OF this] show ?thesis unfolding ctx using Suc by simp
      qed
    qed
    have t4: "\<forall>i < length (out # outs). \<exists>result. env_invoke env ((?call # cs) ! i) = Inr result \<and>
        extract_text_from_agent_result (env_float_repr env) result = Inr ((out # outs) ! i)"
    proof (intro allI impI)
      fix i assume i: "i < length (out # outs)"
      show "\<exists>result. env_invoke env ((?call # cs) ! i) = Inr result \<and>
        extract_text_from_agent_result (env_float_repr env) result = Inr ((out # outs) ! i)"
      proof (cases i)
        case 0
        then show ?thesis using inv ext by simp
      next
        case (Suc k)
        with i have "k < length outs" by simp
        from q [OF this] show ?thesis using Suc by simp
      qed
    qed
    have t5: "(case r of
        Inr (final, trace') \<Rightarrow>
          length (out # outs) = length (a # agent_chain) \<and>
          final = last (contexts running_context (out # outs)) \<and>
          trace' = trace @ map2 trace_entry (a # agent_chain) (out # outs)
      | Inl e \<Rightarrow>
          length (?call # cs) = length (out # outs) + 1 \<and>
          (case env_invoke env (last (?call # cs)) of
             Inl e' \<Rightarrow> e' = e
           | Inr result \<Rightarrow>
               extract_text_from_agent_result (env_float_repr env) result = Inl e))"
    proof (cases r)
      case (Inl e)
      with f have "length cs = length outs + 1"
        and "(case env_invoke env (last cs) of
               Inl e' \<Rightarrow> e' = e
             | Inr result \<Rightarrow>
                 extract_text_from_agent_result (env_float_repr env) result = Inl e)"
        by simp_all
      then show ?thesis using Inl by auto
    next
      case (Inr ft)
      obtain final trace' where ft: "ft = (final, trace')" by (cases ft)
      have ne: "contexts ?rc outs \<noteq> []" using length_contexts [of ?rc outs] by auto
      from f Inr ft show ?thesis unfolding ctx using ne by simp
    qed
    have "chain_spec env original_input idx (a # agent_chain) running_context trace
            (?call # cs) (out # outs) r"
      unfolding chain_spec_def using t1 t2 t3 t4 t5 by (intro conjI)
    moreover have "calls' = calls @ (?call # cs)" using c by simp
    ultimately show ?thesis by blast
  qed
qed

lemma execute_agents_chain:
  assumes "ac_agent_chain cfg \<noteq> []"
    and "execute_agents env cfg original_input = (cs, r)"
  shows "\<exists>outs. chain_spec env original_input 0 (ac_agent_chain cfg) original_input [] cs outs r"
proof -
  from assms have "run_chain env cfg original_input 0 (ac_agent_chain cfg) original_input [] []
      = (cs, r)" by (simp add: execute_agents_def)
  from run_chain_spec [OF this] show ?thesis by auto
qed


lemma resolve_chain_config: "resolve_config example_env chain_params = Inr chain_config"
  by code_simp

lemma chain_prompts:
  "map call_user_prompt chain_calls =
     [''P'',
      ''Original user request:'' @ [CHR 0x0A] @ ''P'' @ [CHR 0x0A, CHR 0x0A] @
      ''Current context from previous agents:'' @ [CHR 0x0A] @ ''m1 says: P'' @
      [CHR 0x0A, CHR 0x0A] @ ''Continue and improve the answer.'',
      ''Original user request:'' @ [CHR 0x0A] @ ''P'' @ [CHR 0x0A, CHR 0x0A] @
      ''Current context from previous agents:'' @ [CHR 0x0A] @ ''m1 says: P'' @
      [CHR 0x0A, CHR 0x0A] @ ''Continue and improve the answer.'']"
  by code_simp

lemma chain_run:
  "snd (langgraph_agent_handler example_env chain_params chain_payload) = Inr chain_out"
  by code_simp


text \<open>
  C5. In chained mode (a valid configuration with a non-empty step list, an input field
  that is present and printable as the text \<open>original\<close>), let \<open>outs\<close> be the texts of the
  steps that returned one and \<open>ctxs\<close> the running contexts: \<open>ctxs ! 0\<close> is the original
  user prompt, and a step's output replaces the context exactly when it is not empty after
  \<open>strip\<close>. Step \<open>i\<close> is invoked with the model of the \<open>i\<close>-th entry of the step list; the
  first step with the original prompt unmodified; step \<open>i > 0\<close> with the text
  \<open>Original user request:\<close>, the original prompt, \<open>Current context from previous agents:\<close>,
  the running context \<open>ctxs ! i\<close>, \<open>Continue and improve the answer.\<close> When the handler
  raises, the last step invoked is the one that raised. When it returns, every step has
  run, the trace has one entry per step, holding the step's name, model and tools and the
  output of that step (blank or not), and the final text output is the running context
  after the last step.
\<close>

theorem chained_mode:
  assumes cfg: "resolve_config env params = Inr cfg"
    and chain: "ac_agent_chain cfg \<noteq> []"
    and prompt: "dict_get payload (ac_input_field cfg) PNone = prompt_value"
    and nn: "prompt_value \<noteq> PNone"
    and ps: "py_str (env_float_repr env) prompt_value = Inr original"
    and run: "langgraph_agent_handler env params payload = (calls, outcome)"
  shows "\<exists>outs ctxs.
      length ctxs = length outs + 1 \<and> ctxs ! 0 = original \<and>
      (\<forall>i < length outs. ctxs ! Suc i = (if strip (outs ! i) = [] then ctxs ! i else outs ! i)) \<and>
      length outs \<le> length calls \<and> length calls \<le> length (ac_agent_chain cfg) \<and>
      0 < length calls \<and>
      call_user_prompt (calls ! 0) = original \<and>
      (\<forall>i < length calls. i \<le> length outs \<and>
         call_model (calls ! i) = cfg_model (ac_agent_chain cfg ! i) \<and>
         (0 < i \<longrightarrow>
            call_user_prompt (calls ! i) =
              ''Original user request:'' @ [CHR 0x0A] @ original @ [CHR 0x0A, CHR 0x0A] @
              ''Current context from previous agents:'' @ [CHR 0x0A] @ (ctxs ! i) @
              [CHR 0x0A, CHR 0x0A] @ ''Continue and improve the answer.'')) \<and>
      (\<forall>i < length outs. \<exists>result. env_invoke env (calls ! i) = Inr result \<and>
         extract_text_from_agent_result (env_float_repr env) result = Inr (outs ! i)) \<and>
      (\<forall>e. outcome = Inl e \<longrightarrow> length calls = length outs + 1) \<and>
      (\<forall>out. outcome = Inr out \<longrightarrow>
         length outs = length (ac_agent_chain cfg) \<and> length calls = length outs \<and>
         (\<exists>trace. map_of out ''agent_trace'' = Some (PList trace) \<and>
            length trace = length outs \<and>
            (\<forall>i < length outs.
               trace ! i =
                 PDict [(''name'', PStr (cfg_name (ac_agent_chain cfg ! i))),
                        (''model'', PStr (cfg_model (ac_agent_chain cfg ! i))),
                        (''tools'', PList (map PStr (cfg_tools (ac_agent_chain cfg ! i)))),
                        (''output'', PStr (outs ! i))])) \<and>
         map_of out ''agent_count'' = Some (PInt (int (length outs))) \<and>
         map_of out ''agent_output'' = Some (PStr (last ctxs)))"
proof -
  let ?chain = "ac_agent_chain cfg"
  obtain cs r where ex: "execute_agents env cfg original = (cs, r)"
    by (cases "execute_agents env cfg original")
  from handler_unfold [OF cfg prompt nn ps ex] run
  have calls: "calls = cs"
    and oc: "outcome = (case r of
                  Inl e \<Rightarrow> Inl (case e of ImportError m \<Rightarrow> missing_dependencies | _ \<Rightarrow> e)
                | Inr (output_text, trace) \<Rightarrow> Inr (merge_output cfg payload output_text trace))"
    by simp_all
  from execute_agents_chain [OF chain ex] obtain outs where
    sp: "chain_spec env original 0 ?chain original [] cs outs r" by blast
  note sp' = sp [unfolded chain_spec_def]
  let ?ctxs = "contexts original outs"
  from sp' have l1: "length outs \<le> length cs" and l2: "length cs \<le> length ?chain"
    by simp_all
  from sp' have p: "\<And>i. i < length cs \<Longrightarrow> i \<le> length outs \<and>
        call_model (cs ! i) = cfg_model (?chain ! i) \<and>
        call_user_prompt (cs ! i) =
          (if i = 0 then ?ctxs ! i else chain_prompt original (?ctxs ! i))"
    by simp
  from sp' have q: "\<forall>i < length outs. \<exists>result. env_invoke env (cs ! i) = Inr result \<and>
        extract_text_from_agent_result (env_float_repr env) result = Inr (outs ! i)"
    by blast
  from sp' have f: "(case r of
        Inr (final, trace') \<Rightarrow>
          length outs = length ?chain \<and> final = last ?ctxs \<and>
          trace' = [] @ map2 trace_entry ?chain outs
      | Inl e \<Rightarrow> length cs = length outs + 1 \<and>
          (case env_invoke env (last cs) of
             Inl e' \<Rightarrow> e' = e
           | Inr result \<Rightarrow>
               extract_text_from_agent_result (env_float_repr env) result = Inl e))"
    by blast
  have pos: "0 < length cs"
  proof (cases r)
    case (Inl e)
    with f show ?thesis by simp
  next
    case (Inr ft)
    with f have "length outs = length ?chain" by (cases ft) simp
    with chain l1 show ?thesis by (cases cs) auto
  qed
  have c1: "length ?ctxs = length outs + 1" by (rule length_contexts)
  have c2: "?ctxs ! 0 = original" by (rule contexts_0)
  have c3: "\<forall>i < length outs. ?ctxs ! Suc i =
      (if strip (outs ! i) = [] then ?ctxs ! i else outs ! i)"
    using contexts_Suc by blast
  have c4: "call_user_prompt (cs ! 0) = original" using p [OF pos] c2 by simp
  have c5: "\<forall>i < length cs. i \<le> length outs \<and>
         call_model (cs ! i) = cfg_model (?chain ! i) \<and>
         (0 < i \<longrightarrow>
            call_user_prompt (cs ! i) =
              ''Original user request:'' @ [CHR 0x0A] @ original @ [CHR 0x0A, CHR 0x0A] @
              ''Current context from previous agents:'' @ [CHR 0x0A] @ (?ctxs ! i) @
              [CHR 0x0A, CHR 0x0A] @ ''Continue and improve the answer.'')"
  proof (intro allI impI)
    fix i assume "i < length cs"
    from p [OF this]
    show "i \<le> length outs \<and>
         call_model (cs ! i) = cfg_model (?chain ! i) \<and>
         (0 < i \<longrightarrow>
            call_user_prompt (cs ! i) =
              ''Original user request:'' @ [CHR 0x0A] @ original @ [CHR 0x0A, CHR 0x0A] @
              ''Current context from previous agents:'' @ [CHR 0x0A] @ (?ctxs ! i) @
              [CHR 0x0A, CHR 0x0A] @ ''Continue and improve the answer.'')"
      by (simp add: chain_prompt_def)
  qed
  have c6: "\<forall>e. outcome = Inl e \<longrightarrow> length cs = length outs + 1"
  proof (intro allI impI)
    fix e assume "outcome = Inl e"
    with oc obtain e' where "r = Inl e'" by (cases r) (auto split: prod.splits)
    with f show "length cs = length outs + 1" by simp
  qed
  have c7: "\<forall>out. outcome = Inr out \<longrightarrow>
         length outs = length ?chain \<and> length cs = length outs \<and>
         (\<exists>trace. map_of out ''agent_trace'' = Some (PList trace) \<and>
            length trace = length outs \<and>
            (\<forall>i < length outs.
               trace ! i =
                 PDict [(''name'', PStr (cfg_name (?chain ! i))),
                        (''model'', PStr (cfg_model (?chain ! i))),
                        (''tools'', PList (map PStr (cfg_tools (?chain ! i)))),
                        (''output'', PStr (outs ! i))])) \<and>
         map_of out ''agent_count'' = Some (PInt (int (length outs))) \<and>
         map_of out ''agent_output'' = Some (PStr (last ?ctxs))"
  proof (intro allI impI)
    fix out assume o: "outcome = Inr out"
    with oc obtain final trace' where r: "r = Inr (final, trace')"
      and out: "out = merge_output cfg payload final trace'"
      by (cases r) (auto split: prod.splits)
    from f r have lo: "length outs = length ?chain" and fin: "final = last ?ctxs"
      and tr: "trace' = map2 trace_entry ?chain outs" by simp_all
    from lo chain have ne: "trace' \<noteq> []" and lt: "length trace' = length outs"
      unfolding tr by (cases ?chain; cases outs; simp)+
    from lo l1 l2 have lc: "length cs = length outs" by simp
    have entries: "\<forall>i < length outs.
               trace' ! i =
                 PDict [(''name'', PStr (cfg_name (?chain ! i))),
                        (''model'', PStr (cfg_model (?chain ! i))),
                        (''tools'', PList (map PStr (cfg_tools (?chain ! i)))),
                        (''output'', PStr (outs ! i))]"
      unfolding tr using lo by (simp add: trace_entry_def)
    have m1: "map_of out ''agent_trace'' = Some (PList trace')"
      and m2: "map_of out ''agent_count'' = Some (PInt (int (length outs)))"
      and m3: "map_of out ''agent_output'' = Some (PStr (last ?ctxs))"
      using out fin ne lt by (simp_all add: map_of_merge_output)
    from m1 lt entries
    have "\<exists>trace. map_of out ''agent_trace'' = Some (PList trace) \<and>
            length trace = length outs \<and>
            (\<forall>i < length outs.
               trace ! i =
                 PDict [(''name'', PStr (cfg_name (?chain ! i))),
                        (''model'', PStr (cfg_model (?chain ! i))),
                        (''tools'', PList (map PStr (cfg_tools (?chain ! i)))),
                        (''output'', PStr (outs ! i))])"
      by blast
    with lo lc m2 m3
    show "length outs = length ?chain \<and> length cs = length outs \<and>
         (\<exists>trace. map_of out ''agent_trace'' = Some (PList trace) \<and>
            length trace = length outs \<and>
            (\<forall>i < length outs.
               trace ! i =
                 PDict [(''name'', PStr (cfg_name (?chain ! i))),
                        (''model'', PStr (cfg_model (?chain ! i))),
                        (''tools'', PList (map PStr (cfg_tools (?chain ! i)))),
                        (''output'', PStr (outs ! i))])) \<and>
         map_of out ''agent_count'' = Some (PInt (int (length outs))) \<and>
         map_of out ''agent_output'' = Some (PStr (last ?ctxs))"
      by (intro conjI)
  qed
  from c1 c2 c3 l1 l2 pos c4 c5 q c6 c7 show ?thesis unfolding calls
    by (intro exI [of _ outs] exI [of _ ?ctxs] conjI)
qed

theorem chained_mode_witness:
  "resolve_config example_env chain_params = Inr chain_config \<and>
   ac_agent_chain chain_config \<noteq> [] \<and>
   dict_get chain_payload (ac_input_field chain_config) PNone = PStr ''P'' \<and>
   py_str (env_float_repr example_env) (PStr ''P'') = Inr ''P'' \<and>
   langgraph_agent_handler example_env chain_params chain_payload =
     (chain_calls, Inr chain_out) \<and>
   map call_user_prompt chain_calls =
     [''P'',
      ''Original user request:'' @ [CHR 0x0A] @ ''P'' @ [CHR 0x0A, CHR 0x0A] @
      ''Current context from previous agents:'' @ [CHR 0x0A] @ ''m1 says: P'' @
      [CHR 0x0A, CHR 0x0A] @ ''Continue and improve the answer.'',
      ''Original user request:'' @ [CHR 0x0A] @ ''P'' @ [CHR 0x0A, CHR 0x0A] @
      ''Current context from previous agents:'' @ [CHR 0x0A] @ ''m1 says: P'' @
      [CHR 0x0A, CHR 0x0A] @ ''Continue and improve the answer.''] \<and>
   (\<exists>outs ctxs.
    length ctxs = length outs + 1 \<and> ctxs ! 0 = ''P'' \<and>
    (\<forall>i < length outs. ctxs ! Suc i = (if strip (outs ! i) = [] then ctxs ! i else outs ! i)) \<and>
    length outs \<le> length chain_calls \<and> length chain_calls \<le> length (ac_agent_chain chain_config) \<and>
    0 < length chain_calls \<and>
    call_user_prompt (chain_calls ! 0) = ''P'' \<and>
    (\<forall>i < length chain_calls. i \<le> length outs \<and>
       call_model (chain_calls ! i) = cfg_model (ac_agent_chain chain_config ! i) \<and>
       (0 < i \<longrightarrow>
          call_user_prompt (chain_calls ! i) =
            ''Original user request:'' @ [CHR 0x0A] @ ''P'' @ [CHR 0x0A, CHR 0x0A] @
            ''Current context from previous agents:'' @ [CHR 0x0A] @ (ctxs ! i) @
            [CHR 0x0A, CHR 0x0A] @ ''Continue and improve the answer.'')) \<and>
    (\<forall>i < length outs. \<exists>result. env_invoke example_env (chain_calls ! i) = Inr result \<and>
       extract_text_from_agent_result (env_float_repr example_env) result = Inr (outs ! i)) \<and>
    (\<forall>e. Inr chain_out = Inl e \<longrightarrow> length chain_calls = length outs + 1) \<and>
    (\<forall>out. Inr chain_out = Inr out \<longrightarrow>
       length outs = length (ac_agent_chain chain_config) \<and> length chain_calls = length outs \<and>
       (\<exists>trace. map_of out ''agent_trace'' = Some (PList trace) \<and>
          length trace = length outs \<and>
          (\<forall>i < length outs.
             trace ! i =
               PDict [(''name'', PStr (cfg_name (ac_agent_chain chain_config ! i))),
                      (''model'', PStr (cfg_model (ac_agent_chain chain_config ! i))),
                      (''tools'', PList (map PStr (cfg_tools (ac_agent_chain chain_config ! i)))),
                      (''output'', PStr (outs ! i))])) \<and>
       map_of out ''agent_count'' = Some (PInt (int (length outs))) \<and>
       map_of out ''agent_output'' = Some (PStr (last ctxs))))"
proof -
  note h1 = resolve_chain_config
  have h2: "ac_agent_chain chain_config \<noteq> []" by (simp add: chain_config_def)
  have h3: "dict_get chain_payload (ac_input_field chain_config) PNone = PStr ''P''"
    by (simp add: chain_config_def example_config_def dict_get_def chain_payload_def)
  have h4: "PStr ''P'' \<noteq> PNone" by simp
  have h5: "py_str (env_float_repr example_env) (PStr ''P'') = Inr ''P''"
    by (simp add: py_str_def)
  have h6: "langgraph_agent_handler example_env chain_params chain_payload =
      (chain_calls, Inr chain_out)"
    using chain_run by (simp add: prod_eq_iff chain_calls_def)
  from chained_mode [OF h1 h2 h3 h4 h5 h6] h1 h2 h3 h5 h6 chain_prompts
  show ?thesis by blast
qed






text \<open>
  What the validation does on every invalid configuration: the handler raises before any
  model invocation, and the exception is a \<open>ValueError\<close> of the validation unless
  \<open>float(temperature)\<close> overflows.
\<close>

lemma py_float_number:
  "is_number v \<Longrightarrow> py_float v = Inl e \<Longrightarrow> e = float_overflow"
  by (cases v) (auto simp: py_float_def is_number_def is_int_def float_of_int_def Let_def
        float_overflow_def split: if_splits)

lemma validate_common_settings_Inl:
  "validate_common_settings model input_field num_ctx num_predict temperature max_tool_calls
     = Inl e \<Longrightarrow>
   (\<exists>msg \<in> set config_messages. e = ValueError msg) \<or> e = float_overflow"
  unfolding validate_common_settings_def
  by (auto simp: config_messages_def split: if_splits sum.splits dest: py_float_number)

lemma normalize_entries_Inl:
  "normalize_entries dm dp dt idx items = Inl e \<Longrightarrow> \<exists>msg \<in> set config_messages. e = ValueError msg"
proof (induction items arbitrary: idx)
  case Nil
  then show ?case by simp
next
  case (Cons item items)
  show ?case
  proof (cases item)
    case (PDict d)
    with Cons.prems Cons.IH show ?thesis
      by (auto simp: Let_def config_messages_def split: if_splits sum.splits)
  qed (use Cons.prems in \<open>auto simp: config_messages_def\<close>)
qed

lemma normalize_agent_chain_Inl:
  "normalize_agent_chain raw dm dp dt = Inl e \<Longrightarrow> \<exists>msg \<in> set config_messages. e = ValueError msg"
  unfolding normalize_agent_chain_def
  by (cases raw) (auto simp: config_messages_def split: if_splits dest: normalize_entries_Inl)

lemma resolve_config_Inl:
  assumes "resolve_config env params = Inl e"
  shows "(\<exists>msg \<in> set config_messages. e = ValueError msg) \<or> e = float_overflow"
proof -
  note r = assms [unfolded resolve_config_def Let_def]
  show ?thesis
  proof (cases "is_str (dict_get params ''system_prompt'' (PStr (d_system_prompt (env_defaults env))))")
    case False
    with r show ?thesis by (simp add: config_messages_def)
  next
    case sp: True
    show ?thesis
    proof (cases "is_str_list (dict_get params ''tools'' (PList (map PStr (d_tools (env_defaults env)))))")
      case False
      with r sp show ?thesis by (simp add: config_messages_def)
    next
      case tl: True
      show ?thesis
      proof (cases "validate_common_settings
          (dict_get params ''model'' (PStr (d_model (env_defaults env))))
          (dict_get params ''input_field'' (PStr (d_input_field (env_defaults env))))
          (dict_get params ''num_ctx'' (PInt (d_num_ctx (env_defaults env))))
          (dict_get params ''num_predict'' (PInt (d_num_predict (env_defaults env))))
          (dict_get params ''temperature'' (PFloat (d_temperature (env_defaults env))))
          (dict_get params ''max_tool_calls'' (PInt (d_max_tool_calls (env_defaults env))))")
        case (Inl e')
        with r sp tl have "e = e'" by simp
        with validate_common_settings_Inl [OF Inl] show ?thesis by simp
      next
        case (Inr v)
        obtain m f c p t b where v: "v = (m, f, c, p, t, b)" by (cases v)
        from r sp tl Inr v obtain dp dt where
          "normalize_agent_chain (dict_get params ''agents'' PNone) m dp dt = Inl e"
          by (auto split: sum.splits)
        from normalize_agent_chain_Inl [OF this] show ?thesis by simp
      qed
    qed
  qed
qed

lemma handler_config_failure:
  "resolve_config env params = Inl e \<Longrightarrow> langgraph_agent_handler env params payload = ([], Inl e)"
  by (simp add: langgraph_agent_handler_def)

lemma is_str_list_defaults: "is_str_list (PList (map PStr dt))"
  by (simp add: is_str_list_def list_all_iff is_str_def)

lemma normalize_entries_invalid:
  "list_ex (step_invalid dm) items \<Longrightarrow> \<exists>e. normalize_entries dm dp dt idx items = Inl e"
proof (induction items arbitrary: idx)
  case Nil
  then show ?case by simp
next
  case (Cons item items)
  show ?case
  proof (cases "step_invalid dm item")
    case True
    show ?thesis
    proof (cases item)
      case (PDict d)
      have t: "dict_get d ''tools'' (PList (map PStr dt)) =
          (if map_of d ''tools'' = None then PList (map PStr dt) else dict_get d ''tools'' PNone)"
        by (auto simp: dict_get_def)
      from True PDict show ?thesis
        by (auto simp: step_invalid_def Let_def t is_str_list_defaults is_str_def
              split: sum.splits)
    qed simp_all
  next
    case False
    with Cons.prems have "list_ex (step_invalid dm) items" by simp
    from Cons.IH [OF this, of "idx + 1"] obtain e where
      e: "normalize_entries dm dp dt (idx + 1) items = Inl e" ..
    show ?thesis
    proof (cases item)
      case (PDict d)
      then show ?thesis using e by (simp add: Let_def)
    qed simp_all
  qed
qed

lemma validate_common_settings_Inr:
  "validate_common_settings model input_field num_ctx num_predict temperature max_tool_calls
     = Inr (m, f, c, p, t, b) \<Longrightarrow>
   is_str model \<and> str_of model \<noteq> [] \<and> is_str input_field \<and> str_of input_field \<noteq> [] \<and>
   is_int num_ctx \<and> 0 < int_of num_ctx \<and> is_int num_predict \<and> 0 < int_of num_predict \<and>
   is_number temperature \<and> is_int max_tool_calls \<and> 0 < int_of max_tool_calls \<and>
   m = str_of model \<and> f = str_of input_field \<and> c = num_ctx \<and> p = num_predict \<and>
   py_float temperature = Inr t \<and> b = max_tool_calls"
  unfolding validate_common_settings_def
  by (auto split: if_splits sum.splits)

lemma invalid_config_fails:
  assumes "invalid_config env params"
  shows "\<exists>e. resolve_config env params = Inl e"
proof (cases "resolve_config env params")
  case (Inl e)
  then show ?thesis by blast
next
  case (Inr cfg)
  let ?d = "env_defaults env"
  let ?model = "dict_get params ''model'' (PStr (d_model ?d))"
  let ?tools = "dict_get params ''tools'' (PList (map PStr (d_tools ?d)))"
  let ?agents = "dict_get params ''agents'' PNone"
  let ?v = "validate_common_settings ?model
          (dict_get params ''input_field'' (PStr (d_input_field ?d)))
          (dict_get params ''num_ctx'' (PInt (d_num_ctx ?d)))
          (dict_get params ''num_predict'' (PInt (d_num_predict ?d)))
          (dict_get params ''temperature'' (PFloat (d_temperature ?d)))
          (dict_get params ''max_tool_calls'' (PInt (d_max_tool_calls ?d)))"
  note r = Inr [unfolded resolve_config_def Let_def]
  from r have tl: "is_str_list ?tools" by (auto split: if_splits)
  from r obtain v where v: "?v = Inr v" by (cases ?v) (auto split: if_splits)
  obtain m f c p t b where vv: "v = (m, f, c, p, t, b)" by (cases v)
  note ok = validate_common_settings_Inr [OF v [unfolded vv]]
  from r v vv obtain dp chain where
    n: "normalize_agent_chain ?agents m dp (str_list_of ?tools) = Inr chain"
    by (auto split: if_splits sum.splits)
  from assms ok tl have a: "(case ?agents of
            PNone \<Rightarrow> False
          | PList items \<Rightarrow> items = [] \<or> list_ex (step_invalid m) items
          | _ \<Rightarrow> True)"
    unfolding invalid_config_def Let_def by auto
  show ?thesis
  proof (cases ?agents)
    case (PList items)
    with a have i: "items = [] \<or> list_ex (step_invalid m) items" by simp
    show ?thesis
    proof (cases "items = []")
      case True
      with n PList show ?thesis by (simp add: normalize_agent_chain_def)
    next
      case False
      with i have "list_ex (step_invalid m) items" by simp
      from normalize_entries_invalid [OF this, of dp "str_list_of ?tools" 0] n PList False
      show ?thesis by (simp add: normalize_agent_chain_def)
    qed
  qed (use a n in \<open>simp_all add: normalize_agent_chain_def\<close>)
qed

lemma invalid_config_raises:
  assumes "invalid_config env params"
  shows "\<exists>e. langgraph_agent_handler env params payload = ([], Inl e) \<and>
           ((\<exists>msg \<in> set config_messages. e = ValueError msg) \<or> e = float_overflow)"
proof -
  from invalid_config_fails [OF assms] obtain e where e: "resolve_config env params = Inl e" ..
  from handler_config_failure [OF e] resolve_config_Inl [OF e] show ?thesis by blast
qed

text \<open>
  C6 at a failing input. With an integer temperature too large for \<open>float\<close> and an empty
  explicit step list, the handler raises \<open>OverflowError\<close> from \<open>float(temperature)\<close> before
  it validates the step list; with the default temperature the same step list raises the
  \<open>ValueError\<close> of the validation.
\<close>

theorem invalid_chain_overflow:
  "langgraph_agent_handler example_env
     [(''temperature'', PInt (10 ^ 400)), (''agents'', PList [])] [(''message'', PStr ''P'')] =
     ([], Inl (OverflowError ''int too large to convert to float'')) \<and>
   langgraph_agent_handler example_env [(''agents'', PList [])] [(''message'', PStr ''P'')] =
     ([], Inl (ValueError ''langgraph_agent.agents must be a non-empty list''))"
  by code_simp

end
